theory Spec2Isabelle
  imports Main "HOL-Library.Sublist"
begin

section \<open>Strings\<close>

text \<open>
  JavaScript strings are modelled as \<open>string\<close> (a list of 8-bit characters). The handles,
  paths and attribute values the manager compares are ASCII, so \<open>toLowerCase\<close> maps
  \<open>A\<close>..\<open>Z\<close> to \<open>a\<close>..\<open>z\<close> and leaves every other character alone, and \<open>trim\<close>
  removes the ASCII white space (tab, line feed, vertical tab, form feed, carriage return,
  space) from both ends.
\<close>

definition toLowerChar :: "char \<Rightarrow> char" where
  "toLowerChar c =
     (let n = (of_char c :: nat) in if 65 \<le> n \<and> n \<le> 90 then char_of (n + 32) else c)"

definition toLowerCase :: "string \<Rightarrow> string" where
  "toLowerCase s = map toLowerChar s"

definition isSpace :: "char \<Rightarrow> bool" where
  "isSpace c = (let n = (of_char c :: nat) in (9 \<le> n \<and> n \<le> 13) \<or> n = 32)"

definition trim :: "string \<Rightarrow> string" where
  "trim s = rev (dropWhile isSpace (rev (dropWhile isSpace s)))"

text \<open>\<^verbatim>\<open>s.replace(/^@/, "")\<close>: one leading \<open>@\<close> is removed, if there is one.\<close>

fun stripLeadingAt :: "string \<Rightarrow> string" where
  "stripLeadingAt [] = []"
| "stripLeadingAt (c # cs) = (if c = CHR ''@'' then cs else c # cs)"

text \<open>\<^verbatim>\<open>x || ""\<close> on a value that is a string, \<open>null\<close> or \<open>undefined\<close>.\<close>

fun orEmpty :: "string option \<Rightarrow> string" where
  "orEmpty None = []"
| "orEmpty (Some s) = s"

text \<open>Truthiness of a value that is a string, \<open>null\<close> or \<open>undefined\<close>.\<close>

fun truthy :: "string option \<Rightarrow> bool" where
  "truthy None = False"
| "truthy (Some s) = (s \<noteq> [])"

section \<open>The document\<close>

text \<open>
  An element carries what the manager reads from it: its tag, its attributes, its rendered
  text and its layout box. A node is an element with its children in document order. Tag
  and attribute names are stored in lower case, as the HTML parser leaves them.
\<close>

record element =
  tag :: string
  attrs :: "(string \<times> string) list"
  innerText :: string
  offsetWidth :: nat
  offsetHeight :: nat
  clientRects :: nat

datatype node = Node (elem: element) (children: "node list")

fun descendants :: "node \<Rightarrow> node list" where
  "descendants (Node e cs) = concat (map (\<lambda>c. c # descendants c) cs)"

definition getAttribute :: "node \<Rightarrow> string \<Rightarrow> string option" where
  "getAttribute n name = map_of (attrs (elem n)) name"

text \<open>
  The selectors of the source are all of the shape \<^verbatim>\<open>tag[a='v'][b]\<close>, with an optional tag
  and attribute tests \<^verbatim>\<open>[a]\<close>, \<^verbatim>\<open>[a='v']\<close> and \<^verbatim>\<open>[a^='v']\<close>.
\<close>

datatype attr_test = HasAttr string | AttrIs string string | AttrBegins string string

datatype selector = Selector (sel_tag: "string option") (sel_tests: "attr_test list")

fun attr_holds :: "node \<Rightarrow> attr_test \<Rightarrow> bool" where
  "attr_holds n (HasAttr a) = (getAttribute n a \<noteq> None)"
| "attr_holds n (AttrIs a v) = (getAttribute n a = Some v)"
| "attr_holds n (AttrBegins a v) =
     (case getAttribute n a of None \<Rightarrow> False | Some x \<Rightarrow> v \<noteq> [] \<and> prefix v x)"

definition matches :: "selector \<Rightarrow> node \<Rightarrow> bool" where
  "matches sel n =
     ((case sel_tag sel of None \<Rightarrow> True | Some t \<Rightarrow> tag (elem n) = t)
      \<and> list_all (attr_holds n) (sel_tests sel))"

text \<open>\<^verbatim>\<open>element.querySelectorAll\<close> and \<^verbatim>\<open>element.querySelector\<close>: the matching
  descendants in document order, and the first of them or \<open>null\<close>.\<close>

definition querySelectorAll :: "selector \<Rightarrow> node \<Rightarrow> node list" where
  "querySelectorAll sel n = filter (matches sel) (descendants n)"

definition querySelector :: "selector \<Rightarrow> node \<Rightarrow> node option" where
  "querySelector sel n = List.find (matches sel) (descendants n)"

text \<open>The same two queries on the document, given by its root element, which is itself
  a candidate.\<close>

definition documentQuerySelectorAll :: "selector \<Rightarrow> node \<Rightarrow> node list" where
  "documentQuerySelectorAll sel root = filter (matches sel) (root # descendants root)"

definition documentQuerySelector :: "selector \<Rightarrow> node \<Rightarrow> node option" where
  "documentQuerySelector sel root = List.find (matches sel) (root # descendants root)"

definition FLAGGED_SELECTOR :: selector where
  "FLAGGED_SELECTOR =
     Selector (Some ''div'') [AttrIs ''data-testid'' ''cellInnerDiv'', HasAttr ''data-ghosted'']"

definition ARTICLE_SELECTOR :: selector where
  "ARTICLE_SELECTOR = Selector (Some ''article'') [AttrIs ''data-testid'' ''tweet'']"

definition CARET_SELECTORS :: "selector list" where
  "CARET_SELECTORS =
     [Selector (Some ''button'') [AttrIs ''aria-label'' ''More''],
      Selector (Some ''div'') [AttrIs ''aria-label'' ''More''],
      Selector (Some ''button'') [AttrIs ''data-testid'' ''caret''],
      Selector (Some ''div'') [AttrIs ''data-testid'' ''caret'']]"

definition MENUITEM_SELECTOR :: selector where
  "MENUITEM_SELECTOR = Selector None [AttrIs ''role'' ''menuitem'']"

definition CONFIRM_SELECTOR :: selector where
  "CONFIRM_SELECTOR =
     Selector (Some ''button'') [AttrIs ''data-testid'' ''confirmationSheetConfirm'']"

definition LINK_SELECTOR :: selector where
  "LINK_SELECTOR = Selector (Some ''a'') [AttrBegins ''href'' ''/'']"

definition UNRETWEET_SELECTOR :: selector where
  "UNRETWEET_SELECTOR = Selector (Some ''button'') [AttrIs ''data-testid'' ''unretweet'']"

definition PROBLEM_MARKERS :: "string list" where
  "PROBLEM_MARKERS =
     [''postquality.problem'',
      ''postquality.problem-adjacent'',
      ''postquality.potential-problem'']"

section \<open>The collaborators of one synchronous call\<close>

text \<open>
  What the injected callbacks and the window answer while one method runs: the raw handle
  of \<^verbatim>\<open>getUsername?.()\<close> (\<open>None\<close> when the callback is missing or returns
  \<open>null\<close>/\<open>undefined\<close>), the answer of \<^verbatim>\<open>isWithReplies()\<close>,
  \<^verbatim>\<open>window.location.pathname\<close>, and the root of the document.
\<close>

record env =
  getUsername :: "string option"
  isWithReplies :: bool
  pathname :: string
  document :: node

definition getNormalizedUsername :: "env \<Rightarrow> string" where
  "getNormalizedUsername e = toLowerCase (stripLeadingAt (trim (orEmpty (getUsername e))))"

definition isOnRepliesPage :: "env \<Rightarrow> bool" where
  "isOnRepliesPage e =
     (let username = getNormalizedUsername e in
      if username = [] then False
      else (let p = toLowerCase (pathname e) in
            isWithReplies e \<and> prefix (''/'' @ username) p \<and> suffix ''/with_replies'' p))"

definition canOperate :: "env \<Rightarrow> bool" where
  "canOperate e = (getNormalizedUsername e \<noteq> [] \<and> isOnRepliesPage e)"

definition getUnavailableReason :: "env \<Rightarrow> string" where
  "getUnavailableReason e =
     (if getNormalizedUsername e = [] then
        ''Open your profile's /with_replies page to capture the username.''
      else if \<not> isWithReplies e then
        ''Auto delete is only available on the /with_replies view.''
      else ''Navigate to your own /with_replies page to enable auto delete.'')"

section \<open>Target selection\<close>

definition getAllFlaggedCells :: "env \<Rightarrow> node list" where
  "getAllFlaggedCells e =
     filter
       (\<lambda>n. let ghost = toLowerCase (orEmpty (getAttribute n ''data-ghosted''))
            in list_ex (\<lambda>marker. sublist marker ghost) PROBLEM_MARKERS)
       (documentQuerySelectorAll FLAGGED_SELECTOR (document e))"

text \<open>The loop of \<open>isTweetByUser\<close> over the links of the article: the first link whose
  path is the user's decides, by the repost marker of the whole article.\<close>

fun isTweetByUser_links :: "string \<Rightarrow> node \<Rightarrow> node list \<Rightarrow> bool" where
  "isTweetByUser_links username article [] = False"
| "isTweetByUser_links username article (link # links) =
     (let href = toLowerCase (orEmpty (getAttribute link ''href'')) in
      if \<not> prefix ''/'' href then isTweetByUser_links username article links
      else if href = ''/'' @ username \<or> prefix (''/'' @ username @ ''/'') href then
        (case querySelector UNRETWEET_SELECTOR article of
           Some repostMarker \<Rightarrow> False
         | None \<Rightarrow> True)
      else isTweetByUser_links username article links)"

definition isTweetByUser :: "env \<Rightarrow> node option \<Rightarrow> bool" where
  "isTweetByUser e article =
     (let username = getNormalizedUsername e in
      case article of
        None \<Rightarrow> False
      | Some a \<Rightarrow>
          if username = [] then False
          else isTweetByUser_links username a (querySelectorAll LINK_SELECTOR a))"

definition getTargetArticleFromCell :: "env \<Rightarrow> node \<Rightarrow> node option" where
  "getTargetArticleFromCell e cell =
     List.find (\<lambda>article. isTweetByUser e (Some article)) (querySelectorAll ARTICLE_SELECTOR cell)"

fun findFirstFlaggedArticle_cells :: "env \<Rightarrow> node list \<Rightarrow> node option" where
  "findFirstFlaggedArticle_cells e [] = None"
| "findFirstFlaggedArticle_cells e (cell # cells) =
     (case getTargetArticleFromCell e cell of
        Some article \<Rightarrow> Some article
      | None \<Rightarrow> findFirstFlaggedArticle_cells e cells)"

definition findFirstFlaggedArticle :: "env \<Rightarrow> node option" where
  "findFirstFlaggedArticle e = findFirstFlaggedArticle_cells e (getAllFlaggedCells e)"

section \<open>Configuration\<close>

text \<open>Delays in milliseconds and attempt counts, as integers. A loop bounded by a count
  that is zero or negative makes no round, and a timer with a negative delay fires at
  once.\<close>

record config =
  WAIT_BETWEEN_STEPS :: int
  WAIT_AFTER_DELETE :: int
  SCAN_INTERVAL :: int
  MENU_ATTEMPTS :: int
  CONFIRM_ATTEMPTS :: int

definition DEFAULT_CONFIG :: config where
  "DEFAULT_CONFIG =
     \<lparr>WAIT_BETWEEN_STEPS = 400, WAIT_AFTER_DELETE = 500, SCAN_INTERVAL = 4000,
      MENU_ATTEMPTS = 4, CONFIRM_ATTEMPTS = 4\<rparr>"

text \<open>The \<open>config\<close> argument of the constructor: each key is given or not, and
  \<^verbatim>\<open>{ ...DEFAULT_CONFIG, ...config }\<close> lets a given key win.\<close>

record config_overrides =
  waitBetweenSteps :: "int option"
  waitAfterDelete :: "int option"
  scanInterval :: "int option"
  menuAttempts :: "int option"
  confirmAttempts :: "int option"

definition noOverrides :: config_overrides where
  "noOverrides =
     \<lparr>waitBetweenSteps = None, waitAfterDelete = None, scanInterval = None,
      menuAttempts = None, confirmAttempts = None\<rparr>"

definition mergeConfig :: "config_overrides \<Rightarrow> config" where
  "mergeConfig ov =
     \<lparr>WAIT_BETWEEN_STEPS = (case waitBetweenSteps ov of None \<Rightarrow> WAIT_BETWEEN_STEPS DEFAULT_CONFIG | Some v \<Rightarrow> v),
      WAIT_AFTER_DELETE = (case waitAfterDelete ov of None \<Rightarrow> WAIT_AFTER_DELETE DEFAULT_CONFIG | Some v \<Rightarrow> v),
      SCAN_INTERVAL = (case scanInterval ov of None \<Rightarrow> SCAN_INTERVAL DEFAULT_CONFIG | Some v \<Rightarrow> v),
      MENU_ATTEMPTS = (case menuAttempts ov of None \<Rightarrow> MENU_ATTEMPTS DEFAULT_CONFIG | Some v \<Rightarrow> v),
      CONFIRM_ATTEMPTS = (case confirmAttempts ov of None \<Rightarrow> CONFIRM_ATTEMPTS DEFAULT_CONFIG | Some v \<Rightarrow> v)\<rparr>"

section \<open>The deletion workflow\<close>

text \<open>
  The workflow is asynchronous: between two of its steps it awaits a timer, and the page
  changes meanwhile. A \<open>world\<close> gives, for every number of milliseconds elapsed since the
  workflow began, what the page shows then: the root of the document, and for an element
  selected earlier its present subtree (\<open>live\<close>). A read of the page may also throw;
  then the world gives the thrown value. A thrown value carries its \<open>message\<close> property,
  if it has one, and its string conversion.

  The workflow never reads or writes the manager's state. Its own state is the time
  elapsed and the effects so far, in order: timers awaited, elements clicked, lines logged.
\<close>

datatype thrown = Thrown (message: "string option") (asString: string)

record page =
  page_document :: node
  live :: "node \<Rightarrow> node"

type_synonym world = "nat \<Rightarrow> thrown + page"

datatype effect = Delay int | Click node | Log string

record wstate =
  clock :: nat
  effects :: "effect list"

definition delay :: "int \<Rightarrow> wstate \<Rightarrow> wstate" where
  "delay ms s = s\<lparr>clock := clock s + nat ms, effects := effects s @ [Delay ms]\<rparr>"

definition click :: "node \<Rightarrow> wstate \<Rightarrow> wstate" where
  "click el s = s\<lparr>effects := effects s @ [Click el]\<rparr>"

definition wlog :: "string \<Rightarrow> wstate \<Rightarrow> wstate" where
  "wlog line s = s\<lparr>effects := effects s @ [Log line]\<rparr>"

fun isVisible :: "node option \<Rightarrow> bool" where
  "isVisible None = False"
| "isVisible (Some el) =
     (offsetWidth (elem el) \<noteq> 0 \<or> offsetHeight (elem el) \<noteq> 0 \<or> clientRects (elem el) \<noteq> 0)"

text \<open>A workflow begins with no time elapsed and no effect yet.\<close>

definition workflowStart :: wstate where
  "workflowStart = \<lparr>clock = 0, effects = []\<rparr>"

text \<open>The loop of \<open>findCaretWithRetry\<close>, entered with its counter \<open>i\<close>.\<close>

function findCaretWithRetry_from ::
  "world \<Rightarrow> node \<Rightarrow> int \<Rightarrow> int \<Rightarrow> int \<Rightarrow> wstate \<Rightarrow> (thrown + node option) \<times> wstate" where
  "findCaretWithRetry_from w article maxRetries delayMs i s =
     (if i < maxRetries then
        (case w (clock s) of
           Inl err \<Rightarrow> (Inl err, s)
         | Inr p \<Rightarrow>
             (case List.find isVisible
                     (map (\<lambda>selector. querySelector selector (live p article)) CARET_SELECTORS) of
                Some caret \<Rightarrow> (Inr caret, s)
              | None \<Rightarrow> findCaretWithRetry_from w article maxRetries delayMs (i + 1) (delay delayMs s)))
      else (Inr None, s))"
  by pat_completeness auto
termination
  by (relation "measure (\<lambda>(w, article, maxRetries, delayMs, i, s). nat (maxRetries - i))") auto

declare findCaretWithRetry_from.simps [simp del]

definition findCaretWithRetry ::
  "world \<Rightarrow> node \<Rightarrow> int \<Rightarrow> int \<Rightarrow> wstate \<Rightarrow> (thrown + node option) \<times> wstate" where
  "findCaretWithRetry w article maxRetries delayMs s =
     findCaretWithRetry_from w article maxRetries delayMs 0 s"

text \<open>The loop of \<open>tryClickDeleteMenuItem\<close>, entered with its counter \<open>attempt\<close>. The
  inner loop over the menu items clicks the first one whose text contains \<open>delete\<close>.\<close>

function tryClickDeleteMenuItem_from ::
  "config \<Rightarrow> world \<Rightarrow> int \<Rightarrow> wstate \<Rightarrow> (thrown + bool) \<times> wstate" where
  "tryClickDeleteMenuItem_from cfg w attempt s =
     (if attempt < MENU_ATTEMPTS cfg then
        (let s1 = delay (WAIT_BETWEEN_STEPS cfg * (attempt + 1)) s in
         case w (clock s1) of
           Inl err \<Rightarrow> (Inl err, s1)
         | Inr p \<Rightarrow>
             (case List.find (\<lambda>item. sublist ''delete'' (toLowerCase (innerText (elem item))))
                     (documentQuerySelectorAll MENUITEM_SELECTOR (page_document p)) of
                Some item \<Rightarrow> (Inr True, click item s1)
              | None \<Rightarrow> tryClickDeleteMenuItem_from cfg w (attempt + 1) s1))
      else (Inr False, s))"
  by pat_completeness auto
termination
  by (relation "measure (\<lambda>(cfg, w, attempt, s). nat (MENU_ATTEMPTS cfg - attempt))") auto

declare tryClickDeleteMenuItem_from.simps [simp del]

definition tryClickDeleteMenuItem :: "config \<Rightarrow> world \<Rightarrow> wstate \<Rightarrow> (thrown + bool) \<times> wstate" where
  "tryClickDeleteMenuItem cfg w s = tryClickDeleteMenuItem_from cfg w 0 s"

function tryConfirmDelete_from ::
  "config \<Rightarrow> world \<Rightarrow> int \<Rightarrow> wstate \<Rightarrow> (thrown + bool) \<times> wstate" where
  "tryConfirmDelete_from cfg w attempt s =
     (if attempt < CONFIRM_ATTEMPTS cfg then
        (let s1 = delay (WAIT_BETWEEN_STEPS cfg * (attempt + 1)) s in
         case w (clock s1) of
           Inl err \<Rightarrow> (Inl err, s1)
         | Inr p \<Rightarrow>
             (let confirmBtn = documentQuerySelector CONFIRM_SELECTOR (page_document p) in
              case (if isVisible confirmBtn then confirmBtn else None) of
                Some btn \<Rightarrow> (Inr True, click btn s1)
              | None \<Rightarrow> tryConfirmDelete_from cfg w (attempt + 1) s1))
      else (Inr False, s))"
  by pat_completeness auto
termination
  by (relation "measure (\<lambda>(cfg, w, attempt, s). nat (CONFIRM_ATTEMPTS cfg - attempt))") auto

declare tryConfirmDelete_from.simps [simp del]

definition tryConfirmDelete :: "config \<Rightarrow> world \<Rightarrow> wstate \<Rightarrow> (thrown + bool) \<times> wstate" where
  "tryConfirmDelete cfg w s = tryConfirmDelete_from cfg w 0 s"

text \<open>\<open>deleteArticle\<close> calls \<open>findCaretWithRetry\<close> with its default arguments, 5 retries
  250 ms apart.\<close>

definition deleteArticle :: "config \<Rightarrow> world \<Rightarrow> node \<Rightarrow> wstate \<Rightarrow> (thrown + bool) \<times> wstate" where
  "deleteArticle cfg w article s =
     (case findCaretWithRetry w article 5 250 s of
        (Inl err, s1) \<Rightarrow> (Inl err, s1)
      | (Inr None, s1) \<Rightarrow> (Inr False, wlog ''[AutoDelete] Caret button not found'' s1)
      | (Inr (Some caret), s1) \<Rightarrow>
          (let s2 = delay (WAIT_BETWEEN_STEPS cfg) (click caret s1) in
           case tryClickDeleteMenuItem cfg w s2 of
             (Inl err, s3) \<Rightarrow> (Inl err, s3)
           | (Inr deleteClicked, s3) \<Rightarrow>
               if \<not> deleteClicked then
                 (Inr False, wlog ''[AutoDelete] Delete menu item not clicked'' s3)
               else
                 (case tryConfirmDelete cfg w s3 of
                    (Inl err, s4) \<Rightarrow> (Inl err, s4)
                  | (Inr confirmed, s4) \<Rightarrow>
                      if \<not> confirmed then
                        (Inr False, wlog ''[AutoDelete] Confirm delete button not found'' s4)
                      else (Inr True, delay (WAIT_AFTER_DELETE cfg) s4))))"

section \<open>The manager\<close>

record agent_state =
  running :: bool
  deleting :: bool
  deletedCount :: nat
  lastError :: "string option"

text \<open>The detail of an \<open>AUTO_DELETE_STATUS\<close> event.\<close>

record status =
  status_running :: bool
  status_deleting :: bool
  status_deletedCount :: nat
  status_username :: "string option"
  status_canRun :: bool
  status_message :: string

text \<open>
  A timer handle of the window is never falsy (the HTML standard gives integers above zero),
  so \<^verbatim>\<open>if (this.loopHandle)\<close> asks whether the field is not \<open>null\<close>.

  The manager, with what it has done to its collaborators: the events emitted and the lines
  logged, in order, the interval timers of the window still armed with their periods, and
  the number of the next handle. \<open>inflight\<close> holds the activations of \<open>runCycle\<close> that are
  suspended at \<^verbatim>\<open>await this.deleteArticle(article)\<close>, oldest first, each with the value
  its workflow settles with and the effects of that workflow.

  The injected callbacks (\<open>log\<close>, \<open>emit\<close>, \<open>getUsername\<close>, \<open>isWithReplies\<close>) and the
  timer functions of the window are taken to return normally; what can throw is a read of
  the page during the workflow.
\<close>

datatype handle = Handle nat

record agent =
  config :: config
  state :: agent_state
  loopHandle :: "handle option"
  inflight :: "((thrown + bool) \<times> effect list) list"
  emitted :: "status list"
  logged :: "string list"
  intervals :: "(handle \<times> int) list"
  nextHandle :: nat

definition AutoDeleteManager :: "config_overrides \<Rightarrow> agent" where
  "AutoDeleteManager ov =
     \<lparr>config = mergeConfig ov,
      state = \<lparr>running = False, deleting = False, deletedCount = 0, lastError = None\<rparr>,
      loopHandle = None, inflight = [], emitted = [], logged = [], intervals = [],
      nextHandle = 1\<rparr>"

definition log :: "string \<Rightarrow> agent \<Rightarrow> agent" where
  "log line a = a\<lparr>logged := logged a @ [line]\<rparr>"

definition composeMessage :: "env \<Rightarrow> agent \<Rightarrow> string" where
  "composeMessage e a =
     (if getNormalizedUsername e = [] then ''Open a /with_replies page to detect your username.''
      else if \<not> isWithReplies e then ''Auto delete becomes available on /with_replies.''
      else if deleting (state a) then ''Deleting a flagged reply...''
      else if running (state a) then ''Scanning flagged replies...''
      else ''Ready to delete flagged replies.'')"

definition emitStatus :: "env \<Rightarrow> agent \<Rightarrow> agent" where
  "emitStatus e a =
     (let detail =
        \<lparr>status_running = running (state a),
         status_deleting = deleting (state a),
         status_deletedCount = deletedCount (state a),
         status_username =
           (if getNormalizedUsername e = [] then None else Some (getNormalizedUsername e)),
         status_canRun = canOperate e,
         status_message =
           (if truthy (lastError (state a)) then orEmpty (lastError (state a))
            else composeMessage e a)\<rparr>
      in a\<lparr>emitted := emitted a @ [detail]\<rparr>)"

definition ensureLoop :: "agent \<Rightarrow> agent" where
  "ensureLoop a =
     (case loopHandle a of
        Some h \<Rightarrow> a
      | None \<Rightarrow>
          a\<lparr>loopHandle := Some (Handle (nextHandle a)),
            intervals := intervals a @ [(Handle (nextHandle a), SCAN_INTERVAL (config a))],
            nextHandle := nextHandle a + 1\<rparr>)"

definition clearLoop :: "agent \<Rightarrow> agent" where
  "clearLoop a =
     (case loopHandle a of
        Some h \<Rightarrow> a\<lparr>intervals := filter (\<lambda>t. fst t \<noteq> h) (intervals a), loopHandle := None\<rparr>
      | None \<Rightarrow> a)"

definition stop :: "string option \<Rightarrow> env \<Rightarrow> agent \<Rightarrow> agent" where
  "stop reason e a =
     (if \<not> running (state a) then
        emitStatus e
          (a\<lparr>state := (state a)\<lparr>lastError :=
                (if truthy reason then reason else lastError (state a))\<rparr>\<rparr>)
      else
        (let a1 = a\<lparr>state := (state a)\<lparr>running := False\<rparr>\<rparr>;
             a2 = (if truthy reason then a1\<lparr>state := (state a1)\<lparr>lastError := reason\<rparr>\<rparr> else a1);
             a3 = clearLoop a2;
             a4 = log ''[AutoDelete] Stopped'' a3
         in emitStatus e a4))"

definition destroy :: "agent \<Rightarrow> agent" where
  "destroy a = clearLoop a"

definition handleContextChange :: "env \<Rightarrow> agent \<Rightarrow> agent" where
  "handleContextChange e a =
     (if running (state a) \<and> \<not> canOperate e then stop (Some (getUnavailableReason e)) e a
      else emitStatus e a)"

text \<open>
  A call of \<open>runCycle\<close> runs until the workflow first awaits a timer and returns its
  promise; \<open>w\<close> is what the page will show while the workflow runs. The workflow touches
  no field of the manager, so the value it settles with is fixed by \<open>w\<close> and is kept with
  the suspended activation.
\<close>

definition runCycle :: "env \<Rightarrow> world \<Rightarrow> agent \<Rightarrow> agent" where
  "runCycle e w a =
     (if \<not> running (state a) \<or> deleting (state a) then a
      else if \<not> canOperate e then stop (Some (getUnavailableReason e)) e a
      else
        (case findFirstFlaggedArticle e of
           None \<Rightarrow> a
         | Some article \<Rightarrow>
             (let a1 = a\<lparr>state := (state a)\<lparr>deleting := True\<rparr>\<rparr>;
                  a2 = emitStatus e a1;
                  (deleted, s) = deleteArticle (config a2) w article workflowStart
              in a2\<lparr>inflight := inflight a2 @ [(deleted, effects s)]\<rparr>)))"

text \<open>Decimal digits of a counter, for the log line of a deletion.\<close>

fun showNat :: "nat \<Rightarrow> string" where
  "showNat n =
     (if n < 10 then [char_of (48 + n)] else showNat (n div 10) @ [char_of (48 + n mod 10)])"

fun logLines :: "effect list \<Rightarrow> string list" where
  "logLines [] = []"
| "logLines (Log line # es) = line # logLines es"
| "logLines (e # es) = logLines es"

text \<open>\<^verbatim>\<open>error?.message || String(error)\<close>\<close>

definition errorText :: "thrown \<Rightarrow> string" where
  "errorText err = (if truthy (message err) then orEmpty (message err) else asString err)"

text \<open>
  The oldest suspended activation of \<open>runCycle\<close> resumes when its workflow has settled:
  the rest of the \<open>try\<close> block on a returned value, the \<open>catch\<close> block on a thrown one,
  and the \<open>finally\<close> block in both cases. \<open>e\<close> is what the collaborators answer then.
  The lines the workflow logged are appended here.
\<close>

definition runCycle_resume :: "env \<Rightarrow> agent \<Rightarrow> agent" where
  "runCycle_resume e a =
     (case inflight a of
        [] \<Rightarrow> a
      | (settled, effs) # rest \<Rightarrow>
          (let a1 = a\<lparr>inflight := rest, logged := logged a @ logLines effs\<rparr>;
               a2 = (case settled of
                       Inr deleted \<Rightarrow>
                         if deleted then
                           (let a' = a1\<lparr>state := (state a1)\<lparr>deletedCount := deletedCount (state a1) + 1\<rparr>\<rparr>
                            in log (''[AutoDelete] Deleted flagged post #'' @ showNat (deletedCount (state a'))) a')
                         else a1
                     | Inl err \<Rightarrow>
                         (let a' = log (''[AutoDelete] Error deleting post: '' @ errorText err) a1
                          in a'\<lparr>state := (state a')\<lparr>lastError := Some (errorText err)\<rparr>\<rparr>));
               a3 = a2\<lparr>state := (state a2)\<lparr>deleting := False\<rparr>\<rparr>
           in emitStatus e a3))"

definition start :: "env \<Rightarrow> world \<Rightarrow> agent \<Rightarrow> agent" where
  "start e w a =
     (if running (state a) then a
      else if \<not> canOperate e then
        emitStatus e (a\<lparr>state := (state a)\<lparr>lastError := Some (getUnavailableReason e)\<rparr>\<rparr>)
      else
        (let a1 = a\<lparr>state := (state a)\<lparr>running := True, deletedCount := 0, lastError := None\<rparr>\<rparr>;
             a2 = log (''[AutoDelete] Started for @'' @ getNormalizedUsername e) a1;
             a3 = ensureLoop a2;
             a4 = emitStatus e a3
         in runCycle e w a4))"

definition handleToggle :: "bool \<Rightarrow> env \<Rightarrow> world \<Rightarrow> agent \<Rightarrow> agent" where
  "handleToggle enabled e w a = (if enabled then start e w a else stop None e a)"

text \<open>A cycle that runs to its end with no other call of the manager in between: the call,
  then the resumption, with the collaborators' answers \<open>e'\<close> at that later time.\<close>

definition runCycle_complete :: "env \<Rightarrow> world \<Rightarrow> env \<Rightarrow> agent \<Rightarrow> agent" where
  "runCycle_complete e w e' a = runCycle_resume e' (runCycle e w a)"

section \<open>Sequences of calls\<close>

text \<open>The public methods, and \<open>Settle\<close> for the resumption of a suspended cycle. Each call
  comes with the collaborators' answers at its time and, for a cycle that starts a
  workflow, with the page that workflow will see.\<close>

datatype call = Start | Stop "string option" | Destroy | HandleContextChange | RunCycle | Settle

fun perform :: "call \<times> env \<times> world \<Rightarrow> agent \<Rightarrow> agent" where
  "perform (Start, e, w) a = start e w a"
| "perform (Stop reason, e, w) a = stop reason e a"
| "perform (Destroy, e, w) a = destroy a"
| "perform (HandleContextChange, e, w) a = handleContextChange e a"
| "perform (RunCycle, e, w) a = runCycle e w a"
| "perform (Settle, e, w) a = runCycle_resume e a"

text \<open>The states passed through by a sequence of calls, the first one included.\<close>

fun states_along :: "(call \<times> env \<times> world) list \<Rightarrow> agent \<Rightarrow> agent list" where
  "states_along [] a = [a]"
| "states_along (c # cs) a = a # states_along cs (perform c a)"

definition busy_implies_running :: "agent \<Rightarrow> bool" where
  "busy_implies_running a = (deleting (state a) \<longrightarrow> running (state a))"

text \<open>A call executes \<open>stop\<close> on a running manager while a deletion is in flight: \<open>stop\<close>
  itself, or \<open>handleContextChange\<close> when the manager may not operate. (\<open>runCycle\<close> returns
  at once while a deletion is in flight.)\<close>

fun stop_in_flight :: "call \<times> env \<times> world \<Rightarrow> agent \<Rightarrow> bool" where
  "stop_in_flight (Stop reason, e, w) a = deleting (state a)"
| "stop_in_flight (HandleContextChange, e, w) a = (deleting (state a) \<and> \<not> canOperate e)"
| "stop_in_flight (c, e, w) a = False"

fun no_stop_in_flight :: "(call \<times> env \<times> world) list \<Rightarrow> agent \<Rightarrow> bool" where
  "no_stop_in_flight [] a = True"
| "no_stop_in_flight (c # cs) a = (\<not> stop_in_flight c a \<and> no_stop_in_flight cs (perform c a))"

text \<open>Exactly one cycle is suspended while \<open>deleting\<close> is true, and none otherwise.\<close>

definition suspended_iff_deleting :: "agent \<Rightarrow> bool" where
  "suspended_iff_deleting a = (length (inflight a) = (if deleting (state a) then 1 else 0))"

section \<open>Measuring a workflow\<close>

text \<open>The number of timers a workflow has awaited, and a page whose reads never throw.\<close>

fun timersAwaited :: "effect list \<Rightarrow> nat" where
  "timersAwaited [] = 0"
| "timersAwaited (Delay ms # es) = Suc (timersAwaited es)"
| "timersAwaited (e # es) = timersAwaited es"

definition neverThrows :: "world \<Rightarrow> bool" where
  "neverThrows w = (\<forall>t. \<exists>p. w t = Inr p)"

section \<open>Example pages and managers\<close>

definition plainElement :: "string \<Rightarrow> (string \<times> string) list \<Rightarrow> element" where
  "plainElement t as =
     \<lparr>tag = t, attrs = as, innerText = [], offsetWidth = 0, offsetHeight = 0, clientRects = 0\<rparr>"

text \<open>A post of \<open>alice\<close> with a visible caret button, inside a flagged cell.\<close>

definition caretA :: node where
  "caretA = Node ((plainElement ''button'' [(''aria-label'', ''More'')])\<lparr>offsetWidth := 20\<rparr>) []"

definition articleA :: node where
  "articleA =
     Node (plainElement ''article'' [(''data-testid'', ''tweet'')])
       [Node (plainElement ''div'' [])
          [Node (plainElement ''a'' [(''href'', ''/alice/status/123'')]) []],
        caretA]"

text \<open>A repost shown on the profile of \<open>alice\<close>: two links to her, and the repost marker.\<close>

definition articleRepost :: node where
  "articleRepost =
     Node (plainElement ''article'' [(''data-testid'', ''tweet'')])
       [Node (plainElement ''a'' [(''href'', ''/alice'')]) [],
        Node (plainElement ''a'' [(''href'', ''/alice/status/77'')]) [],
        Node (plainElement ''div'' [])
          [Node (plainElement ''button'' [(''data-testid'', ''unretweet'')]) []]]"

definition documentA :: node where
  "documentA =
     Node (plainElement ''html'' [])
       [Node (plainElement ''div''
                [(''data-testid'', ''cellInnerDiv''), (''data-ghosted'', ''PostQuality.Problem'')])
          [articleRepost, articleA]]"

definition envA :: env where
  "envA =
     \<lparr>getUsername = Some ''@Alice'', isWithReplies = True, pathname = ''/Alice/with_replies'',
      document = documentA\<rparr>"

text \<open>The same user on another view, and on her replies page with nothing flagged.\<close>

definition envAway :: env where
  "envAway = envA\<lparr>isWithReplies := False, pathname := ''/home''\<rparr>"

definition envQuiet :: env where
  "envQuiet = envA\<lparr>document := Node (plainElement ''html'' []) []\<rparr>"

text \<open>A page that shows the menu item and the confirmation button at all times, a page on
  which the selected post never shows a caret, and a page whose every read throws.\<close>

definition pageReady :: page where
  "pageReady =
     \<lparr>page_document =
        Node (plainElement ''html'' [])
          [Node ((plainElement ''div'' [(''role'', ''menuitem'')])\<lparr>innerText := ''Delete''\<rparr>) [],
           Node ((plainElement ''button'' [(''data-testid'', ''confirmationSheetConfirm'')])
                   \<lparr>clientRects := 1\<rparr>) []],
      live = (\<lambda>n. n)\<rparr>"

definition worldReady :: world where
  "worldReady = (\<lambda>t. Inr pageReady)"

definition worldNoCaret :: world where
  "worldNoCaret = (\<lambda>t. Inr (pageReady\<lparr>live := (\<lambda>n. Node (elem n) [])\<rparr>))"

definition worldBroken :: world where
  "worldBroken = (\<lambda>t. Inl (Thrown (Some ''detached'') ''Error: detached''))"


text \<open>A timeline of five cells. The first has no flag and the second a flag that is no
  problem marker; both hold a post of \<open>alice\<close>. The third is flagged and holds a post of
  another user. The fourth is flagged and holds the repost, then, one level down, the post
  \<open>articleA\<close>, then a later post of \<open>alice\<close>. The fifth is flagged and holds one more.\<close>

definition postOf :: "string \<Rightarrow> node" where
  "postOf href =
     Node (plainElement ''article'' [(''data-testid'', ''tweet'')])
       [Node (plainElement ''a'' [(''href'', href)]) []]"

definition cellOf :: "string option \<Rightarrow> node list \<Rightarrow> node" where
  "cellOf ghosted kids =
     Node (plainElement ''div''
             ((''data-testid'', ''cellInnerDiv'')
              # (case ghosted of None \<Rightarrow> [] | Some g \<Rightarrow> [(''data-ghosted'', g)])))
       kids"

definition documentCells :: node where
  "documentCells =
     Node (plainElement ''html'' [])
       [cellOf None [postOf ''/alice/status/1''],
        cellOf (Some ''safe'') [postOf ''/alice/status/2''],
        cellOf (Some ''PostQuality.Problem-Adjacent'') [postOf ''/bob/status/3''],
        cellOf (Some ''postquality.potential-problem'')
          [articleRepost, Node (plainElement ''div'' []) [articleA], postOf ''/alice/status/5''],
        cellOf (Some ''postquality.problem'') [postOf ''/alice/status/6'']]"

definition envCells :: env where
  "envCells = envA\<lparr>document := documentCells\<rparr>"

text \<open>A page that never shows a menu, a page whose confirmation button stays hidden, and
  pages whose reads throw a bare string, and an error with an empty message.\<close>

definition worldNoMenu :: world where
  "worldNoMenu = (\<lambda>t. Inr (pageReady\<lparr>page_document := Node (plainElement ''html'' []) []\<rparr>))"

definition worldNoConfirm :: world where
  "worldNoConfirm =
     (\<lambda>t. Inr (pageReady\<lparr>page_document :=
        Node (plainElement ''html'' [])
          [Node ((plainElement ''div'' [(''role'', ''menuitem'')])\<lparr>innerText := ''Delete post''\<rparr>) [],
           Node (plainElement ''button'' [(''data-testid'', ''confirmationSheetConfirm'')]) []]\<rparr>))"



text \<open>A manager that is running and idle: started where nothing is flagged.\<close>

definition agentScanning :: agent where
  "agentScanning = start envQuiet worldReady (AutoDeleteManager noOverrides)"

section \<open>Target selection: attribution and order\<close>

lemma find_append_case:
  "List.find P (xs @ ys) = (case List.find P xs of Some x \<Rightarrow> Some x | None \<Rightarrow> List.find P ys)"
  by (induction xs) auto

lemma prefix_slash: "h = ''/'' @ u \<or> prefix (''/'' @ u @ v) h \<Longrightarrow> prefix ''/'' h"
  by (cases h) auto

lemma isTweetByUser_links_step:
  "isTweetByUser_links u a (l # links) =
     (if toLowerCase (orEmpty (getAttribute l ''href'')) = ''/'' @ u
         \<or> prefix (''/'' @ u @ ''/'') (toLowerCase (orEmpty (getAttribute l ''href'')))
      then querySelector UNRETWEET_SELECTOR a = None
      else isTweetByUser_links u a links)"
proof -
  let ?h = "toLowerCase (orEmpty (getAttribute l ''href''))"
  show ?thesis
  proof (cases "?h = ''/'' @ u \<or> prefix (''/'' @ u @ ''/'') ?h")
    case True
    from prefix_slash[OF True] have "prefix ''/'' ?h" .
    with True show ?thesis
      by (simp only: isTweetByUser_links.simps Let_def if_True if_False not_True_eq_False
            split: option.split) simp
  next
    case False
    then show ?thesis
      by (simp only: isTweetByUser_links.simps Let_def if_True if_False split: if_split) simp
  qed
qed

lemma isTweetByUser_links_iff:
  "isTweetByUser_links u a links =
     ((\<exists>link \<in> set links.
          toLowerCase (orEmpty (getAttribute link ''href'')) = ''/'' @ u
          \<or> prefix (''/'' @ u @ ''/'') (toLowerCase (orEmpty (getAttribute link ''href''))))
      \<and> querySelector UNRETWEET_SELECTOR a = None)"
proof (induction links)
  case Nil
  show ?case by simp
next
  case (Cons l links)
  then show ?case
    unfolding isTweetByUser_links_step by auto
qed

lemma isTweetByUser_Some:
  "isTweetByUser e (Some article) =
     (getNormalizedUsername e \<noteq> []
      \<and> isTweetByUser_links (getNormalizedUsername e) article (querySelectorAll LINK_SELECTOR article))"
  by (simp add: isTweetByUser_def Let_def)


lemma toLowerCase_codes:
  "toLowerCase s =
     map (\<lambda>c. if 65 \<le> (of_char c :: nat) \<and> (of_char c :: nat) \<le> 90
               then char_of ((of_char c :: nat) + 32) else c) s"
  by (simp add: toLowerCase_def toLowerChar_def Let_def)







text \<open>
  Claim C9. The repost marker is looked for in the whole post: a post that carries one is
  never the user's, however many of its links lead to the user.
\<close>

theorem repost_marker_excludes_article:
  "querySelector UNRETWEET_SELECTOR article \<noteq> None \<Longrightarrow> \<not> isTweetByUser e (Some article)"
  unfolding isTweetByUser_Some isTweetByUser_links_iff by simp

theorem repost_marker_excludes_article_witness:
  "querySelector UNRETWEET_SELECTOR articleRepost \<noteq> None
   \<and> length (querySelectorAll LINK_SELECTOR articleRepost) = 2
   \<and> \<not> isTweetByUser envA (Some articleRepost)"
proof -
  have h: "querySelector UNRETWEET_SELECTOR articleRepost \<noteq> None" by code_simp
  have "length (querySelectorAll LINK_SELECTOR articleRepost) = 2" by code_simp
  with h repost_marker_excludes_article[OF h, of envA] show ?thesis by simp
qed

lemma findFirstFlaggedArticle_cells_find:
  "findFirstFlaggedArticle_cells e cells =
     List.find (\<lambda>article. isTweetByUser e (Some article))
       (concat (map (querySelectorAll ARTICLE_SELECTOR) cells))"
  by (induction cells)
     (simp_all add: find_append_case getTargetArticleFromCell_def split: option.split)

lemma isTweetByUser_username:
  "getNormalizedUsername e1 = getNormalizedUsername e2 \<Longrightarrow> isTweetByUser e1 = isTweetByUser e2"
  by (simp add: isTweetByUser_def fun_eq_iff)

lemma flagged_cells_by_attributes:
  "getAllFlaggedCells e =
     filter
       (\<lambda>n. tag (elem n) = ''div''
            \<and> map_of (attrs (elem n)) ''data-testid'' = Some ''cellInnerDiv''
            \<and> (case map_of (attrs (elem n)) ''data-ghosted'' of
                  None \<Rightarrow> False
                | Some ghost \<Rightarrow>
                    sublist ''postquality.problem'' (toLowerCase ghost)
                    \<or> sublist ''postquality.problem-adjacent'' (toLowerCase ghost)
                    \<or> sublist ''postquality.potential-problem'' (toLowerCase ghost)))
       (document e # descendants (document e))"
  unfolding getAllFlaggedCells_def documentQuerySelectorAll_def filter_filter
  by (rule filter_cong[OF refl])
     (auto simp add: matches_def FLAGGED_SELECTOR_def PROBLEM_MARKERS_def getAttribute_def Let_def
        split: option.splits)

lemma articles_by_attributes:
  "querySelectorAll ARTICLE_SELECTOR cell =
     filter (\<lambda>n. tag (elem n) = ''article''
                 \<and> map_of (attrs (elem n)) ''data-testid'' = Some ''tweet'')
       (descendants cell)"
proof -
  have "matches ARTICLE_SELECTOR =
      (\<lambda>n. tag (elem n) = ''article'' \<and> map_of (attrs (elem n)) ''data-testid'' = Some ''tweet'')"
    by (simp add: fun_eq_iff matches_def ARTICLE_SELECTOR_def getAttribute_def)
  then show ?thesis by (simp add: querySelectorAll_def)
qed

text \<open>
  Claim C8. Target selection depends on nothing but the document and the normalised handle:
  two calls that agree on both return the same result. The result is the first post of the
  user, or none, in this list: the elements of the document in document order (the root,
  then each child followed by its own descendants) are filtered to the flagged cells (a
  \<open>div\<close> with \<open>data-testid\<close> \<open>cellInnerDiv\<close> whose lower-cased \<open>data-ghosted\<close> contains one
  of the three problem markers), and each flagged cell in turn gives its posts (its
  descendants \<open>article\<close> with \<open>data-testid\<close> \<open>tweet\<close>) in document order.
\<close>

theorem findFirstFlaggedArticle_deterministic:
  assumes "getNormalizedUsername e1 = getNormalizedUsername e2"
    and "document e1 = document e2"
  shows "findFirstFlaggedArticle e1 = findFirstFlaggedArticle e2
     \<and> findFirstFlaggedArticle e1 =
         (let lower = map (\<lambda>c. if 65 \<le> (of_char c :: nat) \<and> (of_char c :: nat) \<le> 90
                                then char_of ((of_char c :: nat) + 32) else c);
              flagged = (\<lambda>n. tag (elem n) = ''div''
                   \<and> map_of (attrs (elem n)) ''data-testid'' = Some ''cellInnerDiv''
                   \<and> (case map_of (attrs (elem n)) ''data-ghosted'' of
                         None \<Rightarrow> False
                       | Some ghost \<Rightarrow>
                           sublist ''postquality.problem'' (lower ghost)
                           \<or> sublist ''postquality.problem-adjacent'' (lower ghost)
                           \<or> sublist ''postquality.potential-problem'' (lower ghost)));
              posts = (\<lambda>cell. filter (\<lambda>n. tag (elem n) = ''article''
                                  \<and> map_of (attrs (elem n)) ''data-testid'' = Some ''tweet'')
                              (descendants cell))
          in List.find (\<lambda>article. isTweetByUser e1 (Some article))
               (concat (map posts (filter flagged (document e1 # descendants (document e1))))))
     \<and> descendants (Node el kids) = concat (map (\<lambda>kid. kid # descendants kid) kids)"
proof -
  have "getAllFlaggedCells e1 = getAllFlaggedCells e2"
    by (simp add: getAllFlaggedCells_def assms(2))
  moreover have "isTweetByUser e1 = isTweetByUser e2"
    using assms(1) by (rule isTweetByUser_username)
  ultimately have same: "findFirstFlaggedArticle e1 = findFirstFlaggedArticle e2"
    by (simp add: findFirstFlaggedArticle_def findFirstFlaggedArticle_cells_find)
  have which: "findFirstFlaggedArticle e1 =
      List.find (\<lambda>article. isTweetByUser e1 (Some article))
        (concat (map (\<lambda>cell. filter (\<lambda>n. tag (elem n) = ''article''
                                  \<and> map_of (attrs (elem n)) ''data-testid'' = Some ''tweet'')
                              (descendants cell))
                  (getAllFlaggedCells e1)))"
    unfolding findFirstFlaggedArticle_def findFirstFlaggedArticle_cells_find
      articles_by_attributes ..
  show ?thesis
    unfolding Let_def
    using same which[unfolded flagged_cells_by_attributes toLowerCase_codes]
    by simp
qed

text \<open>In the timeline of five cells the fourth cell's nested post is selected: the cells
  without a problem marker, the flagged cell without a post of the user, and the repost are
  passed over, and the later posts are not reached. Another view of the same document gives
  the same post.\<close>

theorem findFirstFlaggedArticle_deterministic_witness:
  "getNormalizedUsername envCells
     = getNormalizedUsername (envCells\<lparr>isWithReplies := False, pathname := ''/home''\<rparr>)
   \<and> document envCells = document (envCells\<lparr>isWithReplies := False, pathname := ''/home''\<rparr>)
   \<and> findFirstFlaggedArticle (envCells\<lparr>isWithReplies := False, pathname := ''/home''\<rparr>)
       = Some articleA
   \<and> findFirstFlaggedArticle envCells = Some articleA
   \<and> findFirstFlaggedArticle envA = Some articleA
   \<and> findFirstFlaggedArticle (envCells\<lparr>getUsername := Some ''bob''\<rparr>)
       = Some (postOf ''/bob/status/3'')
   \<and> findFirstFlaggedArticle (envCells\<lparr>getUsername := Some ''carol''\<rparr>) = None"
proof -
  let ?other = "envCells\<lparr>isWithReplies := False, pathname := ''/home''\<rparr>"
  have u: "getNormalizedUsername envCells = getNormalizedUsername ?other" by code_simp
  have d: "document envCells = document ?other" by simp
  have c: "findFirstFlaggedArticle envCells = Some articleA"
    unfolding conjunct1[OF conjunct2[OF findFirstFlaggedArticle_deterministic[OF u d]]]
    by code_simp
  have a: "findFirstFlaggedArticle envA = Some articleA"
    unfolding conjunct1[OF conjunct2[OF findFirstFlaggedArticle_deterministic[OF refl refl]]]
    by code_simp
  have b: "findFirstFlaggedArticle (envCells\<lparr>getUsername := Some ''bob''\<rparr>)
       = Some (postOf ''/bob/status/3'')"
    unfolding conjunct1[OF conjunct2[OF findFirstFlaggedArticle_deterministic[OF refl refl]]]
    by code_simp
  have n: "findFirstFlaggedArticle (envCells\<lparr>getUsername := Some ''carol''\<rparr>) = None"
    unfolding conjunct1[OF conjunct2[OF findFirstFlaggedArticle_deterministic[OF refl refl]]]
    by code_simp
  from u d c a b n conjunct1[OF findFirstFlaggedArticle_deterministic[OF u d]]
  show ?thesis by simp
qed

section \<open>The workflow: bounded retries\<close>

lemma timersAwaited_append: "timersAwaited (xs @ ys) = timersAwaited xs + timersAwaited ys"
  by (induction xs rule: timersAwaited.induct) simp_all

lemma timersAwaited_replicate: "timersAwaited (replicate k (Delay ms)) = k"
  by (induction k) simp_all

lemma effects_delay: "effects (delay ms s) = effects s @ [Delay ms]"
  by (simp add: delay_def)

lemma effects_click: "effects (click el s) = effects s @ [Click el]"
  by (simp add: click_def)

lemma effects_wlog: "effects (wlog line s) = effects s @ [Log line]"
  by (simp add: wlog_def)

lemma clock_delay: "clock (delay ms s) = clock s + nat ms"
  by (simp add: delay_def)

lemma timersAwaited_delay: "timersAwaited (effects (delay ms s)) = Suc (timersAwaited (effects s))"
  by (simp add: effects_delay timersAwaited_append)

lemma timersAwaited_click: "timersAwaited (effects (click el s)) = timersAwaited (effects s)"
  by (simp add: effects_click timersAwaited_append)

lemma timersAwaited_wlog: "timersAwaited (effects (wlog line s)) = timersAwaited (effects s)"
  by (simp add: effects_wlog timersAwaited_append)

lemma isVisible_not_null: "isVisible x \<Longrightarrow> x \<noteq> None"
  by (cases x) simp_all

lemma visible_not_null: "List.find isVisible xs = Some caret \<Longrightarrow> caret \<noteq> None"
  by (induction xs) (auto split: if_splits dest: isVisible_not_null)

text \<open>From counter \<open>i\<close> on, the caret loop awaits \<open>k\<close> timers of \<open>delayMs\<close> each and does
  nothing else; \<open>k\<close> is the number of rounds left exactly when the loop gives up.\<close>

lemma findCaretWithRetry_from_effects:
  "\<exists>k \<le> nat (maxRetries - i).
      effects (snd (findCaretWithRetry_from w article maxRetries delayMs i s))
        = effects s @ replicate k (Delay delayMs)
      \<and> clock (snd (findCaretWithRetry_from w article maxRetries delayMs i s))
        = clock s + k * nat delayMs
      \<and> (fst (findCaretWithRetry_from w article maxRetries delayMs i s) = Inr None
           \<longleftrightarrow> k = nat (maxRetries - i))"
proof (induction w article maxRetries delayMs i s rule: findCaretWithRetry_from.induct)
  case (1 w article maxRetries delayMs i s)
  let ?F = "findCaretWithRetry_from w article maxRetries delayMs"
  note eq = findCaretWithRetry_from.simps[of w article maxRetries delayMs i s]
  show ?case
  proof (cases "i < maxRetries")
    case False
    then have "?F i s = (Inr None, s)" by (subst eq) simp
    with False show ?thesis by simp
  next
    case lt: True
    show ?thesis
    proof (cases "w (clock s)")
      case (Inl err)
      with lt have "?F i s = (Inl err, s)" by (subst eq) simp
      with lt show ?thesis by (intro exI[of _ 0]) simp
    next
      case (Inr p)
      let ?found = "List.find isVisible
          (map (\<lambda>selector. querySelector selector (live p article)) CARET_SELECTORS)"
      show ?thesis
      proof (cases ?found)
        case (Some caret)
        with lt Inr have r: "?F i s = (Inr caret, s)" by (subst eq) simp
        from Some have "caret \<noteq> None" by (rule visible_not_null)
        with r lt show ?thesis by (intro exI[of _ 0]) simp
      next
        case None
        with lt Inr have r: "?F i s = ?F (i + 1) (delay delayMs s)" by (subst eq) simp
        from "1.IH"[OF lt Inr None] obtain k where
          k: "k \<le> nat (maxRetries - (i + 1))"
          "effects (snd (?F (i + 1) (delay delayMs s)))
             = effects (delay delayMs s) @ replicate k (Delay delayMs)"
          "clock (snd (?F (i + 1) (delay delayMs s))) = clock (delay delayMs s) + k * nat delayMs"
          "fst (?F (i + 1) (delay delayMs s)) = Inr None \<longleftrightarrow> k = nat (maxRetries - (i + 1))"
          by blast
        have s: "nat (maxRetries - i) = Suc (nat (maxRetries - (i + 1)))"
          using lt by simp
        show ?thesis
          by (rule exI[of _ "Suc k"])
             (simp add: r k s effects_delay clock_delay replicate_app_Cons_same)
      qed
    qed
  qed
qed

lemma findCaretWithRetry_timers:
  "timersAwaited (effects (snd (findCaretWithRetry w article 5 250 s)))
     \<le> timersAwaited (effects s) + 5"
proof -
  from findCaretWithRetry_from_effects[of 5 0 w article 250 s] obtain k where
    "k \<le> 5" "effects (snd (findCaretWithRetry_from w article 5 250 0 s))
                = effects s @ replicate k (Delay 250)"
    by auto
  then show ?thesis
    by (simp add: findCaretWithRetry_def timersAwaited_append timersAwaited_replicate)
qed

text \<open>Each round of the other two loops begins with one timer, so the timers awaited count
  the rounds.\<close>

lemma tryClickDeleteMenuItem_from_timers:
  "timersAwaited (effects (snd (tryClickDeleteMenuItem_from cfg w attempt s)))
     \<le> timersAwaited (effects s) + nat (MENU_ATTEMPTS cfg - attempt)
   \<and> (fst (tryClickDeleteMenuItem_from cfg w attempt s) = Inr False \<longrightarrow>
        timersAwaited (effects (snd (tryClickDeleteMenuItem_from cfg w attempt s)))
          = timersAwaited (effects s) + nat (MENU_ATTEMPTS cfg - attempt))"
proof (induction cfg w attempt s rule: tryClickDeleteMenuItem_from.induct)
  case (1 cfg w attempt s)
  let ?T = "tryClickDeleteMenuItem_from cfg w"
  let ?s1 = "delay (WAIT_BETWEEN_STEPS cfg * (attempt + 1)) s"
  note eq = tryClickDeleteMenuItem_from.simps[of cfg w attempt s]
  show ?case
  proof (cases "attempt < MENU_ATTEMPTS cfg")
    case False
    then have "?T attempt s = (Inr False, s)" by (subst eq) simp
    with False show ?thesis by simp
  next
    case lt: True
    then have n: "nat (MENU_ATTEMPTS cfg - attempt) = Suc (nat (MENU_ATTEMPTS cfg - (attempt + 1)))"
      by simp
    show ?thesis
    proof (cases "w (clock ?s1)")
      case (Inl err)
      with lt have "?T attempt s = (Inl err, ?s1)" by (subst eq) (simp add: Let_def)
      then show ?thesis by (simp add: n timersAwaited_delay)
    next
      case (Inr p)
      let ?found = "List.find (\<lambda>item. sublist ''delete'' (toLowerCase (innerText (elem item))))
                      (documentQuerySelectorAll MENUITEM_SELECTOR (page_document p))"
      show ?thesis
      proof (cases ?found)
        case (Some item)
        with lt Inr have "?T attempt s = (Inr True, click item ?s1)"
          by (subst eq) (simp add: Let_def)
        then show ?thesis by (simp add: n timersAwaited_delay timersAwaited_click)
      next
        case None
        with lt Inr have r: "?T attempt s = ?T (attempt + 1) ?s1"
          by (subst eq) (simp add: Let_def)
        from "1.IH"[OF lt refl Inr None] show ?thesis
          by (simp add: r n timersAwaited_delay)
      qed
    qed
  qed
qed

lemma tryConfirmDelete_from_timers:
  "timersAwaited (effects (snd (tryConfirmDelete_from cfg w attempt s)))
     \<le> timersAwaited (effects s) + nat (CONFIRM_ATTEMPTS cfg - attempt)
   \<and> (fst (tryConfirmDelete_from cfg w attempt s) = Inr False \<longrightarrow>
        timersAwaited (effects (snd (tryConfirmDelete_from cfg w attempt s)))
          = timersAwaited (effects s) + nat (CONFIRM_ATTEMPTS cfg - attempt))"
proof (induction cfg w attempt s rule: tryConfirmDelete_from.induct)
  case (1 cfg w attempt s)
  let ?T = "tryConfirmDelete_from cfg w"
  let ?s1 = "delay (WAIT_BETWEEN_STEPS cfg * (attempt + 1)) s"
  note eq = tryConfirmDelete_from.simps[of cfg w attempt s]
  show ?case
  proof (cases "attempt < CONFIRM_ATTEMPTS cfg")
    case False
    then have "?T attempt s = (Inr False, s)" by (subst eq) simp
    with False show ?thesis by simp
  next
    case lt: True
    then have n: "nat (CONFIRM_ATTEMPTS cfg - attempt) = Suc (nat (CONFIRM_ATTEMPTS cfg - (attempt + 1)))"
      by simp
    show ?thesis
    proof (cases "w (clock ?s1)")
      case (Inl err)
      with lt have "?T attempt s = (Inl err, ?s1)" by (subst eq) (simp add: Let_def)
      then show ?thesis by (simp add: n timersAwaited_delay)
    next
      case (Inr p)
      let ?btn = "documentQuerySelector CONFIRM_SELECTOR (page_document p)"
      let ?found = "if isVisible ?btn then ?btn else None"
      show ?thesis
      proof (cases ?found)
        case (Some btn)
        with lt Inr have "?T attempt s = (Inr True, click btn ?s1)"
          by (subst eq) (simp add: Let_def)
        then show ?thesis by (simp add: n timersAwaited_delay timersAwaited_click)
      next
        case None
        with lt Inr have r: "?T attempt s = ?T (attempt + 1) ?s1"
          by (subst eq) (simp add: Let_def)
        from "1.IH"[OF lt refl Inr refl None] show ?thesis
          by (simp add: r n timersAwaited_delay)
      qed
    qed
  qed
qed

text \<open>Where no read of the page throws, each loop returns a value.\<close>

lemma findCaretWithRetry_from_returns:
  "neverThrows w \<Longrightarrow> \<exists>c. fst (findCaretWithRetry_from w article maxRetries delayMs i s) = Inr c"
proof (induction w article maxRetries delayMs i s rule: findCaretWithRetry_from.induct)
  case (1 w article maxRetries delayMs i s)
  note eq = findCaretWithRetry_from.simps[of w article maxRetries delayMs i s]
  from "1.prems" obtain p where p: "w (clock s) = Inr p"
    unfolding neverThrows_def by blast
  show ?case
  proof (cases "i < maxRetries")
    case False
    then show ?thesis by (subst eq) simp
  next
    case True
    with p "1.IH"[OF True p _ "1.prems"] show ?thesis
      by (subst eq) (simp split: option.split)
  qed
qed

lemma tryClickDeleteMenuItem_from_returns:
  "neverThrows w \<Longrightarrow> \<exists>b. fst (tryClickDeleteMenuItem_from cfg w attempt s) = Inr b"
proof (induction cfg w attempt s rule: tryClickDeleteMenuItem_from.induct)
  case (1 cfg w attempt s)
  note eq = tryClickDeleteMenuItem_from.simps[of cfg w attempt s]
  let ?s1 = "delay (WAIT_BETWEEN_STEPS cfg * (attempt + 1)) s"
  from "1.prems" obtain p where p: "w (clock ?s1) = Inr p"
    unfolding neverThrows_def by blast
  show ?case
  proof (cases "attempt < MENU_ATTEMPTS cfg")
    case False
    then show ?thesis by (subst eq) auto
  next
    case True
    with p "1.IH"[OF True refl p _ "1.prems"] show ?thesis
      by (subst eq) (auto simp add: Let_def split: option.split)
  qed
qed

lemma tryConfirmDelete_from_returns:
  "neverThrows w \<Longrightarrow> \<exists>b. fst (tryConfirmDelete_from cfg w attempt s) = Inr b"
proof (induction cfg w attempt s rule: tryConfirmDelete_from.induct)
  case (1 cfg w attempt s)
  note eq = tryConfirmDelete_from.simps[of cfg w attempt s]
  let ?s1 = "delay (WAIT_BETWEEN_STEPS cfg * (attempt + 1)) s"
  from "1.prems" obtain p where p: "w (clock ?s1) = Inr p"
    unfolding neverThrows_def by blast
  show ?case
  proof (cases "attempt < CONFIRM_ATTEMPTS cfg")
    case False
    then show ?thesis by (subst eq) auto
  next
    case True
    with p "1.IH"[OF True refl p refl _ "1.prems"] show ?thesis
      by (subst eq) (auto simp add: Let_def split: option.split)
  qed
qed

lemma deleteArticle_timers:
  "timersAwaited (effects (snd (deleteArticle cfg w article s)))
     \<le> timersAwaited (effects s) + 7 + nat (MENU_ATTEMPTS cfg) + nat (CONFIRM_ATTEMPTS cfg)"
proof -
  obtain r1 s1 where f: "findCaretWithRetry w article 5 250 s = (r1, s1)"
    by (cases "findCaretWithRetry w article 5 250 s")
  from findCaretWithRetry_timers[of w article s] f
  have t1: "timersAwaited (effects s1) \<le> timersAwaited (effects s) + 5" by simp
  show ?thesis
  proof (cases r1)
    case (Inl err)
    with f t1 show ?thesis by (simp add: deleteArticle_def)
  next
    case (Inr found)
    show ?thesis
    proof (cases found)
      case None
      with f Inr t1 show ?thesis by (simp add: deleteArticle_def timersAwaited_wlog)
    next
      case (Some caret)
      let ?s2 = "delay (WAIT_BETWEEN_STEPS cfg) (click caret s1)"
      have t2: "timersAwaited (effects ?s2) \<le> timersAwaited (effects s) + 6"
        using t1 by (simp add: timersAwaited_delay timersAwaited_click)
      obtain r3 s3 where m: "tryClickDeleteMenuItem cfg w ?s2 = (r3, s3)"
        by (cases "tryClickDeleteMenuItem cfg w ?s2")
      from tryClickDeleteMenuItem_from_timers[of cfg w 0 ?s2] m t2
      have t3: "timersAwaited (effects s3)
                  \<le> timersAwaited (effects s) + 6 + nat (MENU_ATTEMPTS cfg)"
        by (simp add: tryClickDeleteMenuItem_def)
      obtain r4 s4 where c: "tryConfirmDelete cfg w s3 = (r4, s4)"
        by (cases "tryConfirmDelete cfg w s3")
      from tryConfirmDelete_from_timers[of cfg w 0 s3] c t3
      have t4: "timersAwaited (effects s4)
                  \<le> timersAwaited (effects s) + 6 + nat (MENU_ATTEMPTS cfg) + nat (CONFIRM_ATTEMPTS cfg)"
        by (simp add: tryConfirmDelete_def)
      from f Inr Some m c t3 t4 show ?thesis
        by (simp add: deleteArticle_def Let_def timersAwaited_wlog timersAwaited_delay
              split: sum.split)
    qed
  qed
qed

lemma deleteArticle_returns:
  assumes "neverThrows w"
  shows "\<exists>b. fst (deleteArticle cfg w article s) = Inr b"
proof -
  obtain r1 s1 where f: "findCaretWithRetry w article 5 250 s = (r1, s1)"
    by (cases "findCaretWithRetry w article 5 250 s")
  from findCaretWithRetry_from_returns[OF assms, of article 5 250 0 s] f
  obtain found where r1: "r1 = Inr found" by (auto simp: findCaretWithRetry_def)
  show ?thesis
  proof (cases found)
    case None
    with f r1 show ?thesis by (auto simp add: deleteArticle_def)
  next
    case (Some caret)
    let ?s2 = "delay (WAIT_BETWEEN_STEPS cfg) (click caret s1)"
    obtain r3 s3 where m: "tryClickDeleteMenuItem cfg w ?s2 = (r3, s3)"
      by (cases "tryClickDeleteMenuItem cfg w ?s2")
    from tryClickDeleteMenuItem_from_returns[OF assms, of cfg 0 ?s2] m
    obtain b3 where r3: "r3 = Inr b3" by (auto simp: tryClickDeleteMenuItem_def)
    obtain r4 s4 where c: "tryConfirmDelete cfg w s3 = (r4, s4)"
      by (cases "tryConfirmDelete cfg w s3")
    from tryConfirmDelete_from_returns[OF assms, of cfg 0 s3] c
    obtain b4 where r4: "r4 = Inr b4" by (auto simp: tryConfirmDelete_def)
    from f r1 Some m r3 c r4 show ?thesis
      by (auto simp add: deleteArticle_def Let_def)
  qed
qed

text \<open>A workflow that settles with a thrown value has it from a read of the page.\<close>

lemma findCaretWithRetry_from_throws:
  "fst (findCaretWithRetry_from w article maxRetries delayMs i s) = Inl err \<Longrightarrow> \<exists>t. w t = Inl err"
proof (induction w article maxRetries delayMs i s rule: findCaretWithRetry_from.induct)
  case (1 w article maxRetries delayMs i s)
  let ?F = "findCaretWithRetry_from w article maxRetries delayMs"
  note eq = findCaretWithRetry_from.simps[of w article maxRetries delayMs i s]
  show ?case
  proof (cases "i < maxRetries")
    case False
    then have "?F i s = (Inr None, s)" by (subst eq) simp
    with "1.prems" show ?thesis by simp
  next
    case lt: True
    show ?thesis
    proof (cases "w (clock s)")
      case (Inl thrown)
      with lt have "?F i s = (Inl thrown, s)" by (subst eq) simp
      with "1.prems" Inl show ?thesis by auto
    next
      case (Inr p)
      show ?thesis
      proof (cases "List.find isVisible
          (map (\<lambda>selector. querySelector selector (live p article)) CARET_SELECTORS)")
        case (Some caret)
        with lt Inr have "?F i s = (Inr caret, s)" by (subst eq) simp
        with "1.prems" show ?thesis by simp
      next
        case None
        with lt Inr have "?F i s = ?F (i + 1) (delay delayMs s)" by (subst eq) simp
        with "1.prems" "1.IH"[OF lt Inr None] show ?thesis by simp
      qed
    qed
  qed
qed

lemma tryClickDeleteMenuItem_from_throws:
  "fst (tryClickDeleteMenuItem_from cfg w attempt s) = Inl err \<Longrightarrow> \<exists>t. w t = Inl err"
proof (induction cfg w attempt s rule: tryClickDeleteMenuItem_from.induct)
  case (1 cfg w attempt s)
  let ?T = "tryClickDeleteMenuItem_from cfg w"
  let ?s1 = "delay (WAIT_BETWEEN_STEPS cfg * (attempt + 1)) s"
  note eq = tryClickDeleteMenuItem_from.simps[of cfg w attempt s]
  show ?case
  proof (cases "attempt < MENU_ATTEMPTS cfg")
    case False
    then have "?T attempt s = (Inr False, s)" by (subst eq) simp
    with "1.prems" show ?thesis by simp
  next
    case lt: True
    show ?thesis
    proof (cases "w (clock ?s1)")
      case (Inl thrown)
      with lt have "?T attempt s = (Inl thrown, ?s1)" by (subst eq) (simp add: Let_def)
      with "1.prems" Inl show ?thesis by auto
    next
      case (Inr p)
      show ?thesis
      proof (cases "List.find (\<lambda>item. sublist ''delete'' (toLowerCase (innerText (elem item))))
                      (documentQuerySelectorAll MENUITEM_SELECTOR (page_document p))")
        case (Some item)
        with lt Inr have "?T attempt s = (Inr True, click item ?s1)"
          by (subst eq) (simp add: Let_def)
        with "1.prems" show ?thesis by simp
      next
        case None
        with lt Inr have "?T attempt s = ?T (attempt + 1) ?s1"
          by (subst eq) (simp add: Let_def)
        with "1.prems" "1.IH"[OF lt refl Inr None] show ?thesis by simp
      qed
    qed
  qed
qed

lemma tryConfirmDelete_from_throws:
  "fst (tryConfirmDelete_from cfg w attempt s) = Inl err \<Longrightarrow> \<exists>t. w t = Inl err"
proof (induction cfg w attempt s rule: tryConfirmDelete_from.induct)
  case (1 cfg w attempt s)
  let ?T = "tryConfirmDelete_from cfg w"
  let ?s1 = "delay (WAIT_BETWEEN_STEPS cfg * (attempt + 1)) s"
  note eq = tryConfirmDelete_from.simps[of cfg w attempt s]
  show ?case
  proof (cases "attempt < CONFIRM_ATTEMPTS cfg")
    case False
    then have "?T attempt s = (Inr False, s)" by (subst eq) simp
    with "1.prems" show ?thesis by simp
  next
    case lt: True
    show ?thesis
    proof (cases "w (clock ?s1)")
      case (Inl thrown)
      with lt have "?T attempt s = (Inl thrown, ?s1)" by (subst eq) (simp add: Let_def)
      with "1.prems" Inl show ?thesis by auto
    next
      case (Inr p)
      let ?btn = "documentQuerySelector CONFIRM_SELECTOR (page_document p)"
      show ?thesis
      proof (cases "if isVisible ?btn then ?btn else None")
        case (Some btn)
        with lt Inr have "?T attempt s = (Inr True, click btn ?s1)"
          by (subst eq) (simp add: Let_def)
        with "1.prems" show ?thesis by simp
      next
        case None
        with lt Inr have "?T attempt s = ?T (attempt + 1) ?s1"
          by (subst eq) (simp add: Let_def)
        with "1.prems" "1.IH"[OF lt refl Inr refl None] show ?thesis by simp
      qed
    qed
  qed
qed

lemma deleteArticle_throws:
  assumes "fst (deleteArticle cfg w article s) = Inl err"
  shows "\<exists>t. w t = Inl err"
proof -
  obtain r1 s1 where f: "findCaretWithRetry w article 5 250 s = (r1, s1)"
    by (cases "findCaretWithRetry w article 5 250 s")
  show ?thesis
  proof (cases r1)
    case (Inl thrown)
    with f assms have "fst (findCaretWithRetry_from w article 5 250 0 s) = Inl err"
      by (simp add: deleteArticle_def findCaretWithRetry_def)
    then show ?thesis by (rule findCaretWithRetry_from_throws)
  next
    case (Inr found)
    show ?thesis
    proof (cases found)
      case None
      with f Inr assms show ?thesis by (simp add: deleteArticle_def)
    next
      case (Some caret)
      let ?s2 = "delay (WAIT_BETWEEN_STEPS cfg) (click caret s1)"
      obtain r3 s3 where m: "tryClickDeleteMenuItem cfg w ?s2 = (r3, s3)"
        by (cases "tryClickDeleteMenuItem cfg w ?s2")
      show ?thesis
      proof (cases r3)
        case (Inl thrown)
        with f Inr Some m assms have "fst (tryClickDeleteMenuItem_from cfg w 0 ?s2) = Inl err"
          by (simp add: deleteArticle_def tryClickDeleteMenuItem_def Let_def)
        then show ?thesis by (rule tryClickDeleteMenuItem_from_throws)
      next
        case clicked: (Inr deleteClicked)
        show ?thesis
        proof (cases deleteClicked)
          case False
          with f Inr Some m clicked assms show ?thesis
            by (simp add: deleteArticle_def Let_def)
        next
          case True
          obtain r4 s4 where c: "tryConfirmDelete cfg w s3 = (r4, s4)"
            by (cases "tryConfirmDelete cfg w s3")
          show ?thesis
          proof (cases r4)
            case (Inl thrown)
            with f Inr Some m clicked True c assms
            have "fst (tryConfirmDelete_from cfg w 0 s3) = Inl err"
              by (simp add: deleteArticle_def tryConfirmDelete_def Let_def)
            then show ?thesis by (rule tryConfirmDelete_from_throws)
          next
            case confirmed: (Inr b)
            with f Inr Some m clicked True c assms show ?thesis
              by (simp add: deleteArticle_def Let_def split: if_splits)
          qed
        qed
      qed
    qed
  qed
qed

text \<open>
  Claim C7, as the code has it. Every retry loop of the workflow stops at its ceiling.
  \<open>findCaretWithRetry\<close>, called with 5 retries and 250 ms, awaits \<open>k \<le> 5\<close> timers of 250 ms
  and does nothing else; it gives up exactly when \<open>k = 5\<close>, and otherwise round
  \<open>k + 1 \<le> 5\<close> ended it. \<open>tryClickDeleteMenuItem\<close> and \<open>tryConfirmDelete\<close> await one timer
  per round, at most \<open>MENU_ATTEMPTS\<close> and \<open>CONFIRM_ATTEMPTS\<close> of them. So \<open>deleteArticle\<close>,
  a total function, always settles, after at most
  \<open>5 + 1 + MENU_ATTEMPTS + CONFIRM_ATTEMPTS + 1\<close> timers: with a boolean, or with a value
  thrown by a read of the page. It returns a boolean whenever no read of the page throws.
\<close>

theorem retry_loops_bounded:
  "(\<exists>k \<le> 5. effects (snd (findCaretWithRetry w article 5 250 s))
                 = effects s @ replicate k (Delay 250)
             \<and> clock (snd (findCaretWithRetry w article 5 250 s)) = clock s + k * 250
             \<and> (fst (findCaretWithRetry w article 5 250 s) = Inr None \<longleftrightarrow> k = 5))
   \<and> timersAwaited (effects (snd (tryClickDeleteMenuItem cfg w s)))
        \<le> timersAwaited (effects s) + nat (MENU_ATTEMPTS cfg)
   \<and> (fst (tryClickDeleteMenuItem cfg w s) = Inr False \<longrightarrow>
        timersAwaited (effects (snd (tryClickDeleteMenuItem cfg w s)))
          = timersAwaited (effects s) + nat (MENU_ATTEMPTS cfg))
   \<and> timersAwaited (effects (snd (tryConfirmDelete cfg w s)))
        \<le> timersAwaited (effects s) + nat (CONFIRM_ATTEMPTS cfg)
   \<and> (fst (tryConfirmDelete cfg w s) = Inr False \<longrightarrow>
        timersAwaited (effects (snd (tryConfirmDelete cfg w s)))
          = timersAwaited (effects s) + nat (CONFIRM_ATTEMPTS cfg))
   \<and> timersAwaited (effects (snd (deleteArticle cfg w article s)))
        \<le> timersAwaited (effects s) + 7 + nat (MENU_ATTEMPTS cfg) + nat (CONFIRM_ATTEMPTS cfg)
   \<and> (neverThrows w \<longrightarrow> (\<exists>b. fst (deleteArticle cfg w article s) = Inr b))
   \<and> ((\<exists>b. fst (deleteArticle cfg w article s) = Inr b)
        \<or> (\<exists>err t. fst (deleteArticle cfg w article s) = Inl err \<and> w t = Inl err))
   \<and> MENU_ATTEMPTS (mergeConfig noOverrides) = 4
   \<and> CONFIRM_ATTEMPTS (mergeConfig noOverrides) = 4"
proof -
  from findCaretWithRetry_from_effects[of 5 0 w article 250 s]
  have "\<exists>k \<le> 5. effects (snd (findCaretWithRetry w article 5 250 s))
                 = effects s @ replicate k (Delay 250)
             \<and> clock (snd (findCaretWithRetry w article 5 250 s)) = clock s + k * 250
             \<and> (fst (findCaretWithRetry w article 5 250 s) = Inr None \<longleftrightarrow> k = 5)"
    by (simp add: findCaretWithRetry_def)
  moreover from tryClickDeleteMenuItem_from_timers[of cfg w 0 s]
  have "timersAwaited (effects (snd (tryClickDeleteMenuItem cfg w s)))
        \<le> timersAwaited (effects s) + nat (MENU_ATTEMPTS cfg)"
    and "fst (tryClickDeleteMenuItem cfg w s) = Inr False \<longrightarrow>
        timersAwaited (effects (snd (tryClickDeleteMenuItem cfg w s)))
          = timersAwaited (effects s) + nat (MENU_ATTEMPTS cfg)"
    by (simp_all add: tryClickDeleteMenuItem_def)
  moreover from tryConfirmDelete_from_timers[of cfg w 0 s]
  have "timersAwaited (effects (snd (tryConfirmDelete cfg w s)))
        \<le> timersAwaited (effects s) + nat (CONFIRM_ATTEMPTS cfg)"
    and "fst (tryConfirmDelete cfg w s) = Inr False \<longrightarrow>
        timersAwaited (effects (snd (tryConfirmDelete cfg w s)))
          = timersAwaited (effects s) + nat (CONFIRM_ATTEMPTS cfg)"
    by (simp_all add: tryConfirmDelete_def)
  moreover note deleteArticle_timers[of cfg w article s]
  moreover have "neverThrows w \<longrightarrow> (\<exists>b. fst (deleteArticle cfg w article s) = Inr b)"
    by (simp add: deleteArticle_returns)
  moreover have "(\<exists>b. fst (deleteArticle cfg w article s) = Inr b)
        \<or> (\<exists>err t. fst (deleteArticle cfg w article s) = Inl err \<and> w t = Inl err)"
  proof (cases "fst (deleteArticle cfg w article s)")
    case (Inl err)
    from deleteArticle_throws[OF Inl] Inl show ?thesis by blast
  next
    case (Inr b)
    then show ?thesis by blast
  qed
  moreover have "MENU_ATTEMPTS (mergeConfig noOverrides) = 4"
    and "CONFIRM_ATTEMPTS (mergeConfig noOverrides) = 4"
    by (simp_all add: mergeConfig_def noOverrides_def DEFAULT_CONFIG_def)
  ultimately show ?thesis by blast
qed

text \<open>With the default configuration: on a page that is ready at once the workflow returns
  \<open>true\<close> after four timers; where the caret never shows it returns \<open>false\<close> after five
  timers of 250 ms; where the menu never shows, after the settle delay and four growing
  delays; where the confirmation button stays hidden, after four more.\<close>

theorem retry_loops_bounded_witness:
  "neverThrows worldReady
   \<and> deleteArticle DEFAULT_CONFIG worldReady articleA workflowStart
       = (Inr True,
          \<lparr>clock = 1700,
           effects = [Click caretA, Delay 400, Delay 400,
                      Click (Node ((plainElement ''div'' [(''role'', ''menuitem'')])
                                      \<lparr>innerText := ''Delete''\<rparr>) []),
                      Delay 400,
                      Click (Node ((plainElement ''button''
                                       [(''data-testid'', ''confirmationSheetConfirm'')])
                                      \<lparr>clientRects := 1\<rparr>) []),
                      Delay 500]\<rparr>)
   \<and> timersAwaited (effects (snd (deleteArticle DEFAULT_CONFIG worldReady articleA
         workflowStart))) \<le> 15
   \<and> deleteArticle DEFAULT_CONFIG worldNoCaret articleA workflowStart
       = (Inr False,
          \<lparr>clock = 1250,
           effects = replicate 5 (Delay 250) @ [Log ''[AutoDelete] Caret button not found'']\<rparr>)
   \<and> deleteArticle DEFAULT_CONFIG worldNoMenu articleA workflowStart
       = (Inr False,
          \<lparr>clock = 4400,
           effects = [Click caretA, Delay 400, Delay 400, Delay 800, Delay 1200, Delay 1600,
                      Log ''[AutoDelete] Delete menu item not clicked'']\<rparr>)
   \<and> deleteArticle DEFAULT_CONFIG worldNoConfirm articleA workflowStart
       = (Inr False,
          \<lparr>clock = 4800,
           effects = [Click caretA, Delay 400, Delay 400,
                      Click (Node ((plainElement ''div'' [(''role'', ''menuitem'')])
                                      \<lparr>innerText := ''Delete post''\<rparr>) []),
                      Delay 400, Delay 800, Delay 1200, Delay 1600,
                      Log ''[AutoDelete] Confirm delete button not found'']\<rparr>)"
proof -
  have h: "neverThrows worldReady" by (simp add: neverThrows_def worldReady_def)
  have v: "deleteArticle DEFAULT_CONFIG worldReady articleA workflowStart
       = (Inr True,
          \<lparr>clock = 1700,
           effects = [Click caretA, Delay 400, Delay 400,
                      Click (Node ((plainElement ''div'' [(''role'', ''menuitem'')])
                                      \<lparr>innerText := ''Delete''\<rparr>) []),
                      Delay 400,
                      Click (Node ((plainElement ''button''
                                       [(''data-testid'', ''confirmationSheetConfirm'')])
                                      \<lparr>clientRects := 1\<rparr>) []),
                      Delay 500]\<rparr>)"
    by code_simp
  have c: "nat (MENU_ATTEMPTS DEFAULT_CONFIG) = 4" "nat (CONFIRM_ATTEMPTS DEFAULT_CONFIG) = 4"
    by (simp_all add: DEFAULT_CONFIG_def)
  have z: "timersAwaited (effects workflowStart) = 0" by (simp add: workflowStart_def)
  have n: "deleteArticle DEFAULT_CONFIG worldNoCaret articleA workflowStart
       = (Inr False,
          \<lparr>clock = 1250,
           effects = replicate 5 (Delay 250) @ [Log ''[AutoDelete] Caret button not found'']\<rparr>)"
    by code_simp
  have m: "deleteArticle DEFAULT_CONFIG worldNoMenu articleA workflowStart
       = (Inr False,
          \<lparr>clock = 4400,
           effects = [Click caretA, Delay 400, Delay 400, Delay 800, Delay 1200, Delay 1600,
                      Log ''[AutoDelete] Delete menu item not clicked'']\<rparr>)"
    by code_simp
  have f: "deleteArticle DEFAULT_CONFIG worldNoConfirm articleA workflowStart
       = (Inr False,
          \<lparr>clock = 4800,
           effects = [Click caretA, Delay 400, Delay 400,
                      Click (Node ((plainElement ''div'' [(''role'', ''menuitem'')])
                                      \<lparr>innerText := ''Delete post''\<rparr>) []),
                      Delay 400, Delay 800, Delay 1200, Delay 1600,
                      Log ''[AutoDelete] Confirm delete button not found'']\<rparr>)"
    by code_simp
  from retry_loops_bounded[of worldReady articleA workflowStart DEFAULT_CONFIG] h c z
  have "timersAwaited (effects (snd (deleteArticle DEFAULT_CONFIG worldReady articleA
         workflowStart))) \<le> 15"
    by simp
  with h v n m f show ?thesis by blast
qed

text \<open>The claim as it was stated fails on a page whose reads throw: the workflow settles
  with the thrown value, not with a boolean.\<close>

theorem deleteArticle_settles_thrown:
  "\<not> (\<exists>b. fst (deleteArticle DEFAULT_CONFIG worldBroken articleA workflowStart) = Inr b)"
proof -
  have "fst (deleteArticle DEFAULT_CONFIG worldBroken articleA workflowStart)
      = Inl (Thrown (Some ''detached'') ''Error: detached'')"
    by code_simp
  then show ?thesis by simp
qed

section \<open>The manager: what each method does to the state record\<close>

lemma state_log: "state (log line a) = state a"
  by (simp add: log_def)

lemma state_emitStatus: "state (emitStatus e a) = state a"
  by (simp add: emitStatus_def Let_def)

lemma state_ensureLoop: "state (ensureLoop a) = state a"
  by (simp add: ensureLoop_def split: option.split)

lemma state_clearLoop: "state (clearLoop a) = state a"
  by (simp add: clearLoop_def split: option.split)

lemmas state_simps = state_log state_emitStatus state_ensureLoop state_clearLoop

lemma state_stop:
  "state (stop reason e a) =
     (state a)\<lparr>running := False,
               lastError := (if truthy reason then reason else lastError (state a))\<rparr>"
  by (cases "running (state a)") (simp_all add: stop_def Let_def state_simps)

lemma state_runCycle:
  "state (runCycle e w a) =
     (if \<not> running (state a) \<or> deleting (state a) then state a
      else if \<not> canOperate e then
        (state a)\<lparr>running := False, lastError := Some (getUnavailableReason e)\<rparr>
      else if findFirstFlaggedArticle e = None then state a
      else (state a)\<lparr>deleting := True\<rparr>)"
  by (simp add: runCycle_def state_stop Let_def split_def state_simps getUnavailableReason_def
        split: option.split)

lemma state_runCycle_resume:
  "state (runCycle_resume e a) =
     (case inflight a of
        [] \<Rightarrow> state a
      | (settled, effs) # rest \<Rightarrow>
          (case settled of
             Inr deleted \<Rightarrow>
               (state a)\<lparr>deleting := False,
                 deletedCount :=
                   (if deleted then deletedCount (state a) + 1 else deletedCount (state a))\<rparr>
           | Inl err \<Rightarrow> (state a)\<lparr>deleting := False, lastError := Some (errorText err)\<rparr>))"
  by (simp add: runCycle_resume_def Let_def state_simps split: list.split sum.split prod.split)

lemma state_start:
  "state (start e w a) =
     (if running (state a) then state a
      else if \<not> canOperate e then (state a)\<lparr>lastError := Some (getUnavailableReason e)\<rparr>
      else if deleting (state a) \<or> findFirstFlaggedArticle e = None then
        (state a)\<lparr>running := True, deletedCount := 0, lastError := None\<rparr>
      else (state a)\<lparr>running := True, deletedCount := 0, lastError := None, deleting := True\<rparr>)"
  by (simp add: start_def Let_def state_runCycle state_simps)

lemma state_handleContextChange:
  "state (handleContextChange e a) =
     (if running (state a) \<and> \<not> canOperate e then
        (state a)\<lparr>running := False, lastError := Some (getUnavailableReason e)\<rparr>
      else state a)"
  by (simp add: handleContextChange_def state_stop state_simps getUnavailableReason_def)

lemma state_destroy: "state (destroy a) = state a"
  by (simp add: destroy_def state_simps)

section \<open>The invariant: a deletion in flight implies running\<close>

lemma perform_keeps_invariant:
  assumes "busy_implies_running a" and "\<not> stop_in_flight c a"
  shows "busy_implies_running (perform c a)"
proof -
  obtain k e w where c: "c = (k, e, w)" by (cases c)
  show ?thesis
  proof (cases k)
    case Start
    with assms c show ?thesis by (auto simp add: busy_implies_running_def state_start)
  next
    case (Stop reason)
    with assms c show ?thesis by (simp add: busy_implies_running_def state_stop)
  next
    case Destroy
    with assms c show ?thesis by (simp add: busy_implies_running_def state_destroy)
  next
    case HandleContextChange
    with assms c show ?thesis
      by (auto simp add: busy_implies_running_def state_handleContextChange)
  next
    case RunCycle
    with assms c show ?thesis by (simp add: busy_implies_running_def state_runCycle)
  next
    case Settle
    with assms c show ?thesis
      by (simp add: busy_implies_running_def state_runCycle_resume
            split: list.split sum.split prod.split)
  qed
qed

lemma invariant_along:
  "busy_implies_running a \<Longrightarrow> no_stop_in_flight cs a \<Longrightarrow>
   list_all busy_implies_running (states_along cs a)"
proof (induction cs arbitrary: a)
  case Nil
  then show ?case by simp
next
  case (Cons c cs)
  from Cons.prems have "busy_implies_running (perform c a)"
    by (simp add: perform_keeps_invariant)
  with Cons show ?case by simp
qed

lemma invariant_initially: "busy_implies_running (AutoDeleteManager ov)"
  by (simp add: busy_implies_running_def AutoDeleteManager_def)

text \<open>
  Claim C1, as the code has it. From the initial state, along every sequence of calls of
  \<open>start\<close>, \<open>stop\<close>, \<open>destroy\<close>, \<open>handleContextChange\<close> and \<open>runCycle\<close> and of resumptions of
  a suspended cycle, in which \<open>stop\<close> is never executed (by itself or through
  \<open>handleContextChange\<close>) while a deletion is in flight, \<open>deleting\<close> implies \<open>running\<close>
  before and after each call. A \<open>stop\<close> executed while a deletion is in flight sets
  \<open>running\<close> to false and leaves \<open>deleting\<close> true.
\<close>

theorem busy_implies_running_unless_stopped_in_flight:
  "(no_stop_in_flight cs (AutoDeleteManager ov) \<longrightarrow>
      list_all busy_implies_running (states_along cs (AutoDeleteManager ov)))
   \<and> (running (state a) \<and> deleting (state a) \<longrightarrow>
        \<not> running (state (stop reason e a)) \<and> deleting (state (stop reason e a)))"
  by (simp add: invariant_along invariant_initially state_stop)

text \<open>A run that starts a deletion, ticks during it, lets it settle and then stops; and a
  \<open>stop\<close> on the manager while its first deletion is in flight.\<close>

theorem busy_implies_running_unless_stopped_in_flight_witness:
  "no_stop_in_flight
     [(Start, envA, worldReady), (RunCycle, envA, worldReady), (Destroy, envA, worldReady),
      (Settle, envA, worldReady), (HandleContextChange, envAway, worldReady),
      (Stop None, envA, worldReady)]
     (AutoDeleteManager noOverrides)
   \<and> list_all busy_implies_running
       (states_along
          [(Start, envA, worldReady), (RunCycle, envA, worldReady), (Destroy, envA, worldReady),
           (Settle, envA, worldReady), (HandleContextChange, envAway, worldReady),
           (Stop None, envA, worldReady)]
          (AutoDeleteManager noOverrides))
   \<and> running (state (start envA worldReady (AutoDeleteManager noOverrides)))
   \<and> deleting (state (start envA worldReady (AutoDeleteManager noOverrides)))
   \<and> \<not> running (state (stop None envA (start envA worldReady (AutoDeleteManager noOverrides))))
   \<and> deleting (state (stop None envA (start envA worldReady (AutoDeleteManager noOverrides))))"
proof -
  have h1: "no_stop_in_flight
     [(Start, envA, worldReady), (RunCycle, envA, worldReady), (Destroy, envA, worldReady),
      (Settle, envA, worldReady), (HandleContextChange, envAway, worldReady),
      (Stop None, envA, worldReady)]
     (AutoDeleteManager noOverrides)"
    by code_simp
  have h2: "running (state (start envA worldReady (AutoDeleteManager noOverrides)))"
    by code_simp
  have h3: "deleting (state (start envA worldReady (AutoDeleteManager noOverrides)))"
    by code_simp
  from h1 h2 h3
    busy_implies_running_unless_stopped_in_flight
      [of "[(Start, envA, worldReady), (RunCycle, envA, worldReady), (Destroy, envA, worldReady),
            (Settle, envA, worldReady), (HandleContextChange, envAway, worldReady),
            (Stop None, envA, worldReady)]"
          noOverrides "start envA worldReady (AutoDeleteManager noOverrides)" None envA]
  show ?thesis by blast
qed

text \<open>The claim as it was stated fails: \<open>start\<close> finds a flagged post of the user and
  begins to delete it, and \<open>stop\<close> is called before the workflow has settled.\<close>

theorem stop_in_flight_breaks_invariant:
  "\<not> list_all busy_implies_running
       (states_along [(Start, envA, worldReady), (Stop None, envA, worldReady)]
          (AutoDeleteManager noOverrides))"
  by code_simp

section \<open>Ticks that do nothing, and teardown\<close>

text \<open>
  Claim C6. A call of \<open>runCycle\<close> on a manager that is not running, or that has a deletion
  in flight, returns the manager as it was: no field of the state changes, nothing is
  emitted or logged, no timer is touched and no workflow begins.
\<close>

theorem runCycle_noop_when_stopped_or_busy:
  "\<not> running (state a) \<or> deleting (state a) \<Longrightarrow> runCycle e w a = a"
  by (simp add: runCycle_def)

theorem runCycle_noop_when_stopped_or_busy_witness:
  "\<not> running (state (AutoDeleteManager noOverrides))
   \<and> runCycle envA worldReady (AutoDeleteManager noOverrides) = AutoDeleteManager noOverrides
   \<and> deleting (state (start envA worldReady (AutoDeleteManager noOverrides)))
   \<and> runCycle envA worldReady (start envA worldReady (AutoDeleteManager noOverrides))
       = start envA worldReady (AutoDeleteManager noOverrides)"
proof -
  have h1: "\<not> running (state (AutoDeleteManager noOverrides))"
    by (simp add: AutoDeleteManager_def)
  have h2: "deleting (state (start envA worldReady (AutoDeleteManager noOverrides)))"
    by code_simp
  from h1 h2
    runCycle_noop_when_stopped_or_busy[OF disjI1, OF h1, of envA worldReady]
    runCycle_noop_when_stopped_or_busy[OF disjI2, OF h2, of envA worldReady]
  show ?thesis by simp
qed

text \<open>
  Claim C10. \<open>destroy\<close> cancels the interval timer and sets the handle to \<open>null\<close>, and that
  is all: the state record is unchanged, nothing is emitted or logged, a suspended cycle
  stays suspended. A manager that was running still has \<open>running\<close> true afterwards.
\<close>

theorem destroy_only_clears_timer:
  "destroy a =
     a\<lparr>loopHandle := None,
       intervals := (case loopHandle a of
                       None \<Rightarrow> intervals a
                     | Some h \<Rightarrow> filter (\<lambda>t. fst t \<noteq> h) (intervals a))\<rparr>
   \<and> state (destroy a) = state a
   \<and> emitted (destroy a) = emitted a
   \<and> logged (destroy a) = logged a
   \<and> inflight (destroy a) = inflight a
   \<and> running (state (destroy agentScanning))"
proof -
  have "running (state (destroy agentScanning))" by code_simp
  then show ?thesis
    by (simp add: destroy_def clearLoop_def split: option.split)
qed

theorem destroy_only_clears_timer_witness:
  "loopHandle agentScanning = Some (Handle 1)
   \<and> intervals agentScanning = [(Handle 1, 4000)]
   \<and> loopHandle (destroy agentScanning) = None
   \<and> intervals (destroy agentScanning) = []
   \<and> state (destroy agentScanning) = state agentScanning
   \<and> emitted (destroy agentScanning) = emitted agentScanning
   \<and> running (state (destroy agentScanning))"
proof -
  have h: "loopHandle agentScanning = Some (Handle 1)" "intervals agentScanning = [(Handle 1, 4000)]"
    by code_simp+
  have "loopHandle (destroy agentScanning) = None \<and> intervals (destroy agentScanning) = []"
    by (subst (1 2) conjunct1[OF destroy_only_clears_timer]) (simp add: h)
  moreover have "running (state agentScanning)" by code_simp
  ultimately show ?thesis
    using h destroy_only_clears_timer[of agentScanning] by simp
qed

section \<open>Starting where the manager may not operate\<close>

text \<open>
  Claim C4, as the code has it. On a manager that is not running, where the manager may
  not operate (no handle, or not the user's \<open>/with_replies\<close> view), \<open>start\<close> leaves
  \<open>running\<close> false, arms no timer, and sets \<open>lastError\<close> to the reason, which is not
  empty, before it emits one status, whose message is that reason.
\<close>

theorem start_when_unavailable:
  assumes "\<not> running (state a)" and "\<not> canOperate e"
  shows "\<not> running (state (start e w a))
     \<and> loopHandle (start e w a) = loopHandle a
     \<and> intervals (start e w a) = intervals a
     \<and> lastError (state (start e w a)) = Some (getUnavailableReason e)
     \<and> getUnavailableReason e \<noteq> []
     \<and> (\<exists>st. emitted (start e w a) = emitted a @ [st]
              \<and> status_message st = getUnavailableReason e
              \<and> \<not> status_running st \<and> \<not> status_canRun st)"
  using assms by (simp add: start_def emitStatus_def Let_def getUnavailableReason_def)

theorem start_when_unavailable_witness:
  "\<not> running (state (AutoDeleteManager noOverrides)) \<and> \<not> canOperate envAway
   \<and> \<not> running (state (start envAway worldReady (AutoDeleteManager noOverrides)))
   \<and> loopHandle (start envAway worldReady (AutoDeleteManager noOverrides)) = None
   \<and> lastError (state (start envAway worldReady (AutoDeleteManager noOverrides)))
       = Some ''Auto delete is only available on the /with_replies view.''"
proof -
  have h1: "\<not> running (state (AutoDeleteManager noOverrides))"
    by (simp add: AutoDeleteManager_def)
  have h2: "\<not> canOperate envAway" by code_simp
  have r: "getUnavailableReason envAway = ''Auto delete is only available on the /with_replies view.''"
    by code_simp
  have l: "loopHandle (AutoDeleteManager noOverrides) = None"
    by (simp add: AutoDeleteManager_def)
  from start_when_unavailable[OF h1 h2, of worldReady] h1 h2 r l show ?thesis by simp
qed

text \<open>The claim as it was stated fails on a manager that is already running: there
  \<open>start\<close> returns at once, whatever the view.\<close>

theorem start_when_running_and_unavailable:
  "\<not> canOperate envAway
   \<and> running (state (start envAway worldReady agentScanning))
   \<and> lastError (state (start envAway worldReady agentScanning)) = None
   \<and> emitted (start envAway worldReady agentScanning) = emitted agentScanning"
proof -
  have "\<not> canOperate envAway" by code_simp
  moreover have "running (state agentScanning)" by code_simp
  moreover have "lastError (state agentScanning) = None" by code_simp
  ultimately show ?thesis by (simp add: start_def)
qed

section \<open>A cycle from its call to its end\<close>

lemma runCycle_begins:
  assumes "running (state a)" and "\<not> deleting (state a)"
    and "canOperate e" and "findFirstFlaggedArticle e = Some article"
  shows "inflight (runCycle e w a) =
           inflight a @ [(fst (deleteArticle (config a) w article workflowStart),
                          effects (snd (deleteArticle (config a) w article workflowStart)))]"
    and "state (runCycle e w a) = (state a)\<lparr>deleting := True\<rparr>"
    and "logged (runCycle e w a) = logged a"
  using assms by (simp_all add: runCycle_def Let_def split_def emitStatus_def)


text \<open>The state after a cycle that found a post, from the state before it and the value
  the workflow settled with.\<close>

lemma state_runCycle_complete:
  assumes "running (state a)" and "\<not> deleting (state a)" and "inflight a = []"
    and "canOperate e" and "findFirstFlaggedArticle e = Some article"
  shows "state (runCycle_complete e w e' a) =
     (case fst (deleteArticle (config a) w article workflowStart) of
        Inr deleted \<Rightarrow>
          (state a)\<lparr>deleting := False,
            deletedCount := (if deleted then deletedCount (state a) + 1 else deletedCount (state a))\<rparr>
      | Inl err \<Rightarrow> (state a)\<lparr>deleting := False, lastError := Some (errorText err)\<rparr>)"
  using assms
  by (simp add: runCycle_complete_def state_runCycle_resume runCycle_begins split: sum.split)















text \<open>
  Claim C3. A cycle that finds a post sets \<open>deleting\<close> and runs the workflow. If the
  workflow returns \<open>true\<close>, \<open>deletedCount\<close> has grown by exactly one after the cycle; if it
  returns \<open>false\<close> or throws, \<open>deletedCount\<close> is as before. In every case \<open>deleting\<close> is
  false after the cycle. The same holds of the resumption of any suspended cycle, whatever
  was called since it began: it adds one to \<open>deletedCount\<close> exactly on \<open>true\<close>, and it
  resets \<open>deleting\<close>.
\<close>

theorem cycle_counts_and_releases:
  assumes "running (state a)" and "\<not> deleting (state a)" and "inflight a = []"
    and "canOperate e" and "findFirstFlaggedArticle e = Some article"
  shows "deleting (state (runCycle e w a))
     \<and> \<not> deleting (state (runCycle_complete e w e' a))
     \<and> deletedCount (state (runCycle_complete e w e' a)) =
         (if fst (deleteArticle (config a) w article workflowStart) = Inr True
          then deletedCount (state a) + 1 else deletedCount (state a))
     \<and> (\<forall>settled effs rest. inflight b = (settled, effs) # rest \<longrightarrow>
            \<not> deleting (state (runCycle_resume e' b))
            \<and> deletedCount (state (runCycle_resume e' b)) =
                (if settled = Inr True then deletedCount (state b) + 1 else deletedCount (state b)))"
proof -
  have "deleting (state (runCycle e w a))"
    using assms by (simp add: runCycle_begins)
  moreover have "\<forall>settled effs rest. inflight b = (settled, effs) # rest \<longrightarrow>
            \<not> deleting (state (runCycle_resume e' b))
            \<and> deletedCount (state (runCycle_resume e' b)) =
                (if settled = Inr True then deletedCount (state b) + 1 else deletedCount (state b))"
    by (simp add: state_runCycle_resume split: sum.split)
  ultimately show ?thesis
    by (simp add: state_runCycle_complete[OF assms] split: sum.split)
qed

text \<open>A workflow that succeeds, and one that throws.\<close>

theorem cycle_counts_and_releases_witness:
  "running (state agentScanning) \<and> \<not> deleting (state agentScanning)
   \<and> inflight agentScanning = [] \<and> canOperate envA
   \<and> findFirstFlaggedArticle envA = Some articleA
   \<and> deletedCount (state agentScanning) = 0
   \<and> fst (deleteArticle (config agentScanning) worldReady articleA workflowStart) = Inr True
   \<and> deletedCount (state (runCycle_complete envA worldReady envA agentScanning)) = 1
   \<and> \<not> deleting (state (runCycle_complete envA worldReady envA agentScanning))
   \<and> deletedCount (state (runCycle_complete envA worldBroken envA agentScanning)) = 0
   \<and> \<not> deleting (state (runCycle_complete envA worldBroken envA agentScanning))"
proof -
  have h: "running (state agentScanning)" "\<not> deleting (state agentScanning)"
    "inflight agentScanning = []" "canOperate envA"
    "findFirstFlaggedArticle envA = Some articleA"
    by code_simp+
  have z: "deletedCount (state agentScanning) = 0" by code_simp
  have v: "fst (deleteArticle (config agentScanning) worldReady articleA workflowStart) = Inr True"
    by code_simp
  have b: "fst (deleteArticle (config agentScanning) worldBroken articleA workflowStart)
       = Inl (Thrown (Some ''detached'') ''Error: detached'')"
    by code_simp
  from cycle_counts_and_releases[OF h, of worldReady envA]
    cycle_counts_and_releases[OF h, of worldBroken envA] h z v b
  show ?thesis by simp
qed

section \<open>Suspended cycles and the busy flag\<close>

text \<open>
  The cycle theorems above ask that no cycle is suspended when the cycle begins. Along
  every sequence of calls from the initial state this follows from \<open>deleting\<close> being
  false: a cycle is suspended exactly while \<open>deleting\<close> is true, and never more than one.
  So a manager that is busy always has a suspended cycle whose resumption releases it.
\<close>

lemma inflight_emitStatus: "inflight (emitStatus e a) = inflight a"
  by (simp add: emitStatus_def Let_def)

lemma inflight_stop: "inflight (stop reason e a) = inflight a"
  by (simp add: stop_def Let_def emitStatus_def log_def clearLoop_def split: option.split)

lemma inflight_runCycle:
  "inflight (runCycle e w a) =
     (if running (state a) \<and> \<not> deleting (state a) \<and> canOperate e
         \<and> findFirstFlaggedArticle e \<noteq> None
      then inflight a @ [(fst (deleteArticle (config a) w (the (findFirstFlaggedArticle e)) workflowStart),
                          effects (snd (deleteArticle (config a) w (the (findFirstFlaggedArticle e)) workflowStart)))]
      else inflight a)"
  by (auto simp add: runCycle_def Let_def split_def inflight_stop emitStatus_def
        split: option.split)

lemma inflight_start:
  "inflight (start e w a) =
     (if \<not> running (state a) \<and> \<not> deleting (state a) \<and> canOperate e
         \<and> findFirstFlaggedArticle e \<noteq> None
      then inflight a @ [(fst (deleteArticle (config a) w (the (findFirstFlaggedArticle e)) workflowStart),
                          effects (snd (deleteArticle (config a) w (the (findFirstFlaggedArticle e)) workflowStart)))]
      else inflight a)"
  by (simp add: start_def Let_def inflight_runCycle inflight_emitStatus state_simps
        emitStatus_def ensureLoop_def log_def split: option.split)

lemma inflight_runCycle_resume: "inflight (runCycle_resume e a) = tl (inflight a)"
  by (simp add: runCycle_resume_def Let_def emitStatus_def log_def
        split: list.split sum.split prod.split)

lemma inflight_handleContextChange: "inflight (handleContextChange e a) = inflight a"
  by (simp add: handleContextChange_def inflight_stop inflight_emitStatus)

lemma inflight_destroy: "inflight (destroy a) = inflight a"
  by (simp add: destroy_def clearLoop_def split: option.split)

lemma perform_keeps_suspended_iff_deleting:
  assumes "suspended_iff_deleting a"
  shows "suspended_iff_deleting (perform c a)"
proof -
  obtain k e w where c: "c = (k, e, w)" by (cases c)
  show ?thesis
  proof (cases k)
    case Start
    with assms c show ?thesis
      by (auto simp add: suspended_iff_deleting_def state_start inflight_start split: if_splits)
  next
    case (Stop reason)
    with assms c show ?thesis
      by (simp add: suspended_iff_deleting_def state_stop inflight_stop)
  next
    case Destroy
    with assms c show ?thesis
      by (simp add: suspended_iff_deleting_def state_destroy inflight_destroy)
  next
    case HandleContextChange
    with assms c show ?thesis
      by (simp add: suspended_iff_deleting_def state_handleContextChange
            inflight_handleContextChange)
  next
    case RunCycle
    with assms c show ?thesis
      by (auto simp add: suspended_iff_deleting_def state_runCycle inflight_runCycle
            split: if_splits)
  next
    case Settle
    with assms c show ?thesis
      by (cases "inflight a")
         (auto simp add: suspended_iff_deleting_def state_runCycle_resume
            inflight_runCycle_resume split: if_splits sum.splits)
  qed
qed

lemma suspended_iff_deleting_along:
  "suspended_iff_deleting a \<Longrightarrow> list_all suspended_iff_deleting (states_along cs a)"
proof (induction cs arbitrary: a)
  case Nil
  then show ?case by simp
next
  case (Cons c cs)
  from Cons.prems have "suspended_iff_deleting (perform c a)"
    by (rule perform_keeps_suspended_iff_deleting)
  with Cons show ?case by simp
qed

lemma suspended_iff_deleting_reachable:
  "list_all suspended_iff_deleting (states_along cs (AutoDeleteManager ov))"
  by (rule suspended_iff_deleting_along)
     (simp add: suspended_iff_deleting_def AutoDeleteManager_def)

end
